theory Spec2Isabelle
  imports Complex_Main
begin

section \<open>Algorithm W (WalkSAT): the program of walk.cc\<close>

text \<open>
  The solver of \<^verbatim>\<open>src/walk.cc\<close> as HOL functions. Vectors are lists, the mutable
  \<^verbatim>\<open>Cnf\<close> object is a record passed and returned, \<^verbatim>\<open>rand()\<close> reads an explicit
  sequence of draws, and the two loops that need not end (the rejection sampling of W3 and
  the main loop of \<^verbatim>\<open>solve\<close>) are partial functions whose value \<open>None\<close> means that
  the loop never returns.
\<close>

subsection \<open>Types and constants of the headers\<close>

text \<open>
  \<^verbatim>\<open>types.h\<close>, \<^verbatim>\<open>flags.h\<close> and \<^verbatim>\<open>logging.h\<close> are not among the sources. A literal
  (\<^verbatim>\<open>lit_t\<close>) is an \<open>int\<close>, a clause index (\<^verbatim>\<open>clause_t\<close>) a \<open>nat\<close>. The counters
  \<^verbatim>\<open>numtrue\<close> and \<^verbatim>\<open>cost\<close> are unbounded integers: the widths of the two types are
  unknown, so wrap-around is not modelled. The sentinels \<^verbatim>\<open>clause_nil\<close> and
  \<^verbatim>\<open>lit_nil\<close> are \<open>None\<close>: a value that is no clause position and no literal.
\<close>

type_synonym lit_t = int
type_synonym clause_t = nat

text \<open>
  Modelled from the spec: \<^verbatim>\<open>var\<close> is declared in \<^verbatim>\<open>types.h\<close>; the spec gives
  \<open>var(l) = |l|\<close>.
\<close>

definition var :: "lit_t \<Rightarrow> nat" where
  "var l = nat \<bar>l\<bar>"

text \<open>
  The constants the program takes from its platform and its flags: \<^verbatim>\<open>RAND_MAX\<close> of
  the C library, the largest values of \<^verbatim>\<open>lit_t\<close> and \<^verbatim>\<open>clause_t\<close>, and the two
  parameters declared with \<^verbatim>\<open>DEFINE_PARAM\<close>, each the value of a \<^verbatim>\<open>double\<close>.
\<close>

record env =
  RAND_MAX :: nat
  lit_max :: int
  clause_max :: nat
  PARAM_initial_bias :: rat
  PARAM_non_greedy_choice :: rat

subsection \<open>The random source\<close>

text \<open>
  The state of the C library's generator is the sequence of the draws still to come;
  \<^verbatim>\<open>rand()\<close> returns its head.
\<close>

type_synonym rng = "nat \<Rightarrow> nat"

definition rand :: "rng \<Rightarrow> nat \<times> rng" where
  "rand g = (g 0, \<lambda>i. g (Suc i))"

text \<open>
  The arithmetic of \<^verbatim>\<open>float\<close> and \<^verbatim>\<open>double\<close>: IEEE 754 binary32 and binary64, every
  operation rounded to the nearest value of its type, ties to the even significand. A
  value is a rational number; rounding to \<open>p\<close> significant bits keeps the sign, finds the
  exponent \<open>e\<close> with \<open>2\<^sup>e \<le> |x| < 2\<^sup>e\<^sup>+\<^sup>1\<close> and rounds \<open>|x|\<close> to a multiple of
  \<open>2\<^sup>e\<^sup>-\<^sup>p\<^sup>+\<^sup>1\<close>. Expressions of type \<^verbatim>\<open>float\<close> are evaluated in \<^verbatim>\<open>float\<close>, with no
  excess precision. The exponent range is not modelled: with \<^verbatim>\<open>RAND_MAX\<close> and the
  counter \<open>k\<close> of W4 below \<open>2\<^sup>1\<^sup>2\<^sup>6\<close>, the values of the program (a draw of
  \<^verbatim>\<open>rand()\<close>, a quotient of two of them, a probability \<open>1/k\<close>) are zero or normal
  numbers.
\<close>

text \<open>The number of binary digits of \<open>n\<close>.\<close>

function bits :: "nat \<Rightarrow> nat" where
  "bits n = (if n = 0 then 0 else Suc (bits (n div 2)))"
  by pat_completeness auto
termination by (relation "measure id") auto

declare bits.simps [simp del]

text \<open>\<open>x\<close> times \<open>2\<^sup>s\<close>.\<close>

definition scale :: "rat \<Rightarrow> int \<Rightarrow> rat" where
  "scale x s = (if 0 \<le> s then x * 2 ^ nat s else x / 2 ^ nat (- s))"

text \<open>The exponent of a positive \<open>x\<close>.\<close>

definition expo :: "rat \<Rightarrow> int" where
  "expo x =
     (if 1 \<le> x then int (bits (nat \<lfloor>x\<rfloor>)) - 1
      else let j = int (bits (nat \<lfloor>1 / x\<rfloor>))
           in if 1 \<le> scale x (j - 1) then 1 - j else - j)"

text \<open>The nearest integer, a tie going to the even one.\<close>

definition rne :: "rat \<Rightarrow> int" where
  "rne t = (let m = \<lfloor>t\<rfloor>; d = t - of_int m
            in if d < 1 / 2 \<or> (d = 1 / 2 \<and> even m) then m else m + 1)"

definition fp_round :: "nat \<Rightarrow> rat \<Rightarrow> rat" where
  "fp_round p x =
     (if x = 0 then 0
      else let s = expo \<bar>x\<bar> - int p + 1
           in sgn x * scale (of_int (rne (scale \<bar>x\<bar> (- s)))) s)"

definition to_float :: "rat \<Rightarrow> rat" where
  "to_float = fp_round 24"

definition to_double :: "rat \<Rightarrow> rat" where
  "to_double = fp_round 53"

text \<open>
  \<^verbatim>\<open>static bool flip(float p) { return static_cast<float>(rand())/RAND_MAX <= p; }\<close>
  The argument is converted to \<^verbatim>\<open>float\<close> at the call, the draw by the cast and
  \<^verbatim>\<open>RAND_MAX\<close> by the division, whose quotient is a \<^verbatim>\<open>float\<close> again. With a zero
  divisor the quotient is infinite or no number, and the comparison false.
\<close>

definition flip :: "env \<Rightarrow> rat \<Rightarrow> rng \<Rightarrow> bool \<times> rng" where
  "flip E p g =
     (let (r, g') = rand g;
          x = to_float (of_nat r);
          y = to_float (of_nat (RAND_MAX E))
      in (y \<noteq> 0 \<and> to_float (x / y) \<le> to_float p, g'))"

subsection \<open>struct Cnf\<close>

record Cnf =
  clauses :: "lit_t list"
  start :: "clause_t list"
  val :: "bool list"
  cost :: "int list"
  invclause :: "lit_t \<Rightarrow> clause_t list"
  f :: "clause_t list"
  numtrue :: "int list"
  w :: "clause_t option list"
  nvars :: nat
  nclauses :: nat

text \<open>The constructor's member initialisers.\<close>

definition Cnf_new :: "nat \<Rightarrow> nat \<Rightarrow> Cnf" where
  "Cnf_new nv nc =
     \<lparr>clauses = [], start = [],
      val = replicate (nv + 1) False,
      cost = replicate (nv + 1) 0,
      invclause = (\<lambda>l. []),
      f = [],
      numtrue = replicate nc 0,
      w = replicate nc None,
      nvars = nv, nclauses = nc\<rparr>"

text \<open>
  The constructor's body: \<^verbatim>\<open>if (FLAGS_seed == 0) FLAGS_seed = time(NULL); srand(FLAGS_seed);\<close>
  \<open>srand\<close> maps a seed to the sequence of draws that follows it.
\<close>

definition Cnf_seed :: "nat \<Rightarrow> nat \<Rightarrow> nat" where
  "Cnf_seed FLAGS_seed now = (if FLAGS_seed = 0 then now else FLAGS_seed)"

definition Cnf_srand :: "(nat \<Rightarrow> rng) \<Rightarrow> nat \<Rightarrow> nat \<Rightarrow> rng" where
  "Cnf_srand srand FLAGS_seed now = srand (Cnf_seed FLAGS_seed now)"

definition clause_begin :: "Cnf \<Rightarrow> clause_t \<Rightarrow> nat" where
  "clause_begin c k = start c ! k"

text \<open>
  \<^verbatim>\<open>(c == start.size() - 1) ? clauses.size() : start[c + 1]\<close>; the subtraction is
  unsigned, so the test is written \<open>k + 1 = length (start c)\<close>.
\<close>

definition clause_end :: "Cnf \<Rightarrow> clause_t \<Rightarrow> nat" where
  "clause_end c k = (if k + 1 = length (start c) then length (clauses c) else start c ! (k + 1))"

text \<open>The literals \<^verbatim>\<open>clauses[clause_begin(k)], ..., clauses[clause_end(k) - 1]\<close>.\<close>

definition clause_lits :: "Cnf \<Rightarrow> clause_t \<Rightarrow> lit_t list" where
  "clause_lits c k = map (\<lambda>itr. clauses c ! itr) [clause_begin c k ..< clause_end c k]"

definition is_true :: "Cnf \<Rightarrow> lit_t \<Rightarrow> bool" where
  "is_true c l = (let tv = val c ! var l in (tv \<and> l > 0) \<or> (\<not> tv \<and> l < 0))"

definition is_satisfied :: "Cnf \<Rightarrow> clause_t \<Rightarrow> bool" where
  "is_satisfied c k = list_ex (is_true c) (clause_lits c k)"

definition register_satisfied :: "Cnf \<Rightarrow> clause_t \<Rightarrow> Cnf" where
  "register_satisfied c k =
     (if w c ! k = None then c
      else
        let c1 = c\<lparr>w := (w c)[f c ! (length (f c) - 1) := w c ! k]\<rparr>;
            p = the (w c1 ! k);
            c2 = c1\<lparr>f := (f c1)[p := f c1 ! (length (f c1) - 1),
                              length (f c1) - 1 := f c1 ! p]\<rparr>;
            c3 = c2\<lparr>w := (w c2)[k := None]\<rparr>
        in c3\<lparr>f := take (length (f c3) - 1) (f c3)\<rparr>)"

definition register_unsatisfied :: "Cnf \<Rightarrow> clause_t \<Rightarrow> Cnf" where
  "register_unsatisfied c k =
     (if w c ! k \<noteq> None then c
      else
        let c1 = c\<lparr>w := (w c)[k := Some (length (f c))]\<rparr>
        in c1\<lparr>f := f c1 @ [k]\<rparr>)"

subsection \<open>print\_assignment\<close>

definition digit :: "nat \<Rightarrow> char" where
  "digit d = ''0123456789'' ! d"

function decimal :: "nat \<Rightarrow> string" where
  "decimal n = (if n < 10 then [digit n] else decimal (n div 10) @ [digit (n mod 10)])"
  by pat_completeness auto
termination
  by (relation "measure id") auto

text \<open>
  The loop of \<^verbatim>\<open>print_assignment\<close>, with the text sent to \<^verbatim>\<open>PRINT\<close> appended to
  \<open>out\<close>; \<^verbatim>\<open>std::endl\<close> is a line feed.
\<close>

function print_loop :: "Cnf \<Rightarrow> nat \<Rightarrow> nat \<Rightarrow> string \<Rightarrow> string" where
  "print_loop c i j out =
     (if i \<le> nvars c then
        let out1 = (if j mod 10 = 0 then out @ ''v'' else out);
            out2 = out1 @ (if val c ! i then '' -'' else '' '') @ decimal i;
            j1 = j + 1;
            out3 = (if i = nvars c then out2 @ '' 0'' @ [CHR 0x0A]
                    else if j1 > 0 \<and> j1 mod 10 = 0 then out2 @ [CHR 0x0A]
                    else out2)
        in print_loop c (i + 1) j1 out3
      else out)"
  by pat_completeness auto
termination
  by (relation "measure (\<lambda>(c, i, j, out). nvars c + 1 - i)") auto

definition print_assignment :: "Cnf \<Rightarrow> string" where
  "print_assignment c = print_loop c 1 0 []"

subsection \<open>parse\<close>

text \<open>
  The input after the problem line is the list of the integers that \<^verbatim>\<open>fscanf(f, " %i ", &lit)\<close>
  reads one by one; the end of the list is \<^verbatim>\<open>EOF\<close>. \<open>read_lits\<close> is the inner
  \<^verbatim>\<open>while (true)\<close> loop: it returns whether it stopped at \<^verbatim>\<open>EOF\<close>, the input that is
  left, the literal array and \<^verbatim>\<open>read_lit\<close>.
\<close>

fun read_lits :: "int list \<Rightarrow> lit_t list \<Rightarrow> bool \<Rightarrow> bool \<times> int list \<times> lit_t list \<times> bool" where
  "read_lits [] cl read_lit = (True, [], cl, read_lit)"
| "read_lits (lit # rest) cl read_lit =
     (if lit = 0 then (False, rest, cl, read_lit)
      else read_lits rest (cl @ [lit]) True)"

lemma read_lits_shorter:
  "read_lits toks cl rl = (False, rest, cl', rl') \<Longrightarrow> length rest < length toks"
proof (induction toks arbitrary: cl rl)
  case Nil
  then show ?case by simp
next
  case (Cons lit toks)
  show ?case
  proof (cases "lit = 0")
    case True
    with Cons.prems show ?thesis by simp
  next
    case False
    with Cons.prems have "read_lits toks (cl @ [lit]) True = (False, rest, cl', rl')"
      by simp
    then have "length rest < length toks" by (rule Cons.IH)
    then show ?thesis by simp
  qed
qed

datatype parsed = UNSAT_EXIT | CHECK_FAILED | Parsed Cnf

text \<open>The outer \<^verbatim>\<open>do ... while (nc != EOF)\<close> loop.\<close>

function read_clauses :: "int list \<Rightarrow> Cnf \<Rightarrow> parsed" where
  "read_clauses toks c =
     (let start0 = length (clauses c) in
      case read_lits toks (clauses c) False of
        (eof, rest, cl, read_lit) \<Rightarrow>
          if \<not> eof \<and> start0 = length cl then UNSAT_EXIT
          else if \<not> read_lit then Parsed (c\<lparr>clauses := cl\<rparr>)
          else
            let c1 = c\<lparr>clauses := cl, start := start c @ [start0]\<rparr>
            in if \<not> eof then read_clauses rest c1 else Parsed c1)"
  by pat_completeness auto
termination
  by (relation "measure (\<lambda>(toks, c). length toks)") (auto dest: read_lits_shorter [OF sym])

declare read_clauses.simps [simp del]

text \<open>
  \<open>parse\<close> from the problem line on: \<open>nv\<close> and \<open>nc\<close> are the two numbers read there
  into \<^verbatim>\<open>long long\<close> variables.
\<close>

definition parse :: "env \<Rightarrow> int \<Rightarrow> int \<Rightarrow> int list \<Rightarrow> parsed" where
  "parse E nv nc toks =
     (if \<not> (nv \<ge> 0) then CHECK_FAILED
      else if \<not> (nc \<ge> 0) then CHECK_FAILED
      else if nv > lit_max E then CHECK_FAILED
      else if nc > int (clause_max E) then CHECK_FAILED
      else
        case read_clauses toks (Cnf_new (nat nv) (nat nc)) of
          Parsed c \<Rightarrow> if length (start c) = nclauses c then Parsed c else CHECK_FAILED
        | r \<Rightarrow> r)"

subsection \<open>solve\<close>

datatype error = CHECK_failed | Undefined

text \<open>W1, first loop: \<^verbatim>\<open>c->val[i] = flip(PARAM_initial_bias)\<close> for \<open>i\<close> from 1 to \<open>nvars\<close>.\<close>

definition W1_val :: "env \<Rightarrow> nat \<Rightarrow> Cnf \<times> rng \<Rightarrow> Cnf \<times> rng" where
  "W1_val E i = (\<lambda>(c, g).
     let (heads, g') = flip E (PARAM_initial_bias E) g
     in (c\<lparr>val := (val c)[i := heads]\<rparr>, g'))"

text \<open>
  W1, the body of the loop over the literals of clause \<open>i\<close>; \<open>tl\<close> is \<open>None\<close> for
  \<^verbatim>\<open>lit_nil\<close>.
\<close>

definition W1_lit :: "clause_t \<Rightarrow> nat \<Rightarrow> Cnf \<times> nat option \<Rightarrow> Cnf \<times> nat option" where
  "W1_lit i j = (\<lambda>(c, tl).
     let l = clauses c ! j;
         c1 = c\<lparr>invclause := (invclause c)(l := invclause c l @ [i])\<rparr>
     in if is_true c1 l
        then (c1\<lparr>numtrue := (numtrue c1)[i := numtrue c1 ! i + 1]\<rparr>, Some (var l))
        else (c1, tl))"

text \<open>
  W1, the body of the loop over the clauses. With \<^verbatim>\<open>numtrue[i] == 1\<close> a true literal was
  seen, so \<open>tl\<close> is set when \<^verbatim>\<open>++c->cost[tl]\<close> runs.
\<close>

definition W1_clause :: "clause_t \<Rightarrow> Cnf \<Rightarrow> Cnf" where
  "W1_clause i c =
     (let end = clause_end c i;
          (c1, tl) = fold (W1_lit i) [clause_begin c i ..< end] (c, None)
      in if numtrue c1 ! i = 0
         then (let c2 = c1\<lparr>w := (w c1)[i := Some (length (f c1))]\<rparr> in c2\<lparr>f := f c2 @ [i]\<rparr>)
         else if numtrue c1 ! i = 1
         then (case tl of
                 Some v \<Rightarrow> c1\<lparr>cost := (cost c1)[v := cost c1 ! v + 1]\<rparr>
               | None \<Rightarrow> c1)
         else c1)"

definition W1 :: "env \<Rightarrow> Cnf \<Rightarrow> rng \<Rightarrow> Cnf \<times> rng" where
  "W1 E c g =
     (let (c1, g1) = fold (W1_val E) [1 ..< nvars c + 1] (c, g)
      in (fold W1_clause [0 ..< nclauses c1] c1, g1))"

text \<open>W3: \<^verbatim>\<open>do { q = std::rand() / divisor; } while (q >= c->f.size());\<close>\<close>

partial_function (option) W3_loop :: "nat \<Rightarrow> nat \<Rightarrow> rng \<Rightarrow> (nat \<times> rng) option" where
  "W3_loop divisor n g =
     (let (r, g') = rand g;
          q = r div divisor
      in if q \<ge> n then W3_loop divisor n g' else Some (q, g'))"

text \<open>
  W3. \<^verbatim>\<open>CHECK_NO_OVERFLOW(clause_t, RAND_MAX)\<close> aborts when \<^verbatim>\<open>RAND_MAX\<close> is no
  \<^verbatim>\<open>clause_t\<close>. \<^verbatim>\<open>static_cast<clause_t>(RAND_MAX) + 1\<close> beyond the largest
  \<^verbatim>\<open>clause_t\<close> overflows (or wraps to a zero divisor), and a zero divisor is a division by
  zero: both are undefined behaviour.
\<close>

definition W3 :: "env \<Rightarrow> Cnf \<Rightarrow> rng \<Rightarrow> (error + nat \<times> rng) option" where
  "W3 E c g =
     (if RAND_MAX E > clause_max E then Some (Inl CHECK_failed)
      else if RAND_MAX E + 1 > clause_max E then Some (Inl Undefined)
      else
        let divisor = (RAND_MAX E + 1) div length (f c)
        in if divisor = 0 then Some (Inl Undefined)
           else map_option Inr (W3_loop divisor (length (f c)) g))"

text \<open>
  W4, the scan over the literals of the chosen clause. The statement
  \<^verbatim>\<open>if (flip(1.0/k)) { choice = c->clauses[itr]; }\<close> is the parameter \<open>upd\<close>, which
  acts on \<open>choice\<close> and the random source together.
\<close>

fun W4_scan :: "(nat \<Rightarrow> lit_t \<Rightarrow> 'c \<Rightarrow> 'c) \<Rightarrow> bool \<Rightarrow> int list \<Rightarrow> lit_t list \<Rightarrow> int \<Rightarrow> nat \<Rightarrow> 'c \<Rightarrow> 'c" where
  "W4_scan upd all cst [] min_cost k ch = ch"
| "W4_scan upd all cst (l # ls) min_cost k ch =
     (let cost_l = cst ! var l;
          (min_cost1, k1) =
             (if cost_l < min_cost
              then (cost_l, if \<not> all \<or> cost_l = 0 then 1 else k)
              else (min_cost, k))
      in if (all \<and> min_cost1 > 0) \<or> cost_l = min_cost1
         then W4_scan upd all cst ls min_cost1 (k1 + 1) (upd k1 l ch)
         else W4_scan upd all cst ls min_cost1 k1 ch)"

text \<open>
  \<^verbatim>\<open>if (flip(1.0/k)) { choice = c->clauses[itr]; }\<close> on the draws of \<^verbatim>\<open>rand()\<close>;
  the quotient \<^verbatim>\<open>1.0/k\<close> is a \<^verbatim>\<open>double\<close>.
\<close>

definition W4_choice :: "env \<Rightarrow> nat \<Rightarrow> lit_t \<Rightarrow> lit_t option \<times> rng \<Rightarrow> lit_t option \<times> rng" where
  "W4_choice E k l = (\<lambda>(choice, g).
     let (heads, g') = flip E (to_double (1 / of_nat k)) g
     in (if heads then Some l else choice, g'))"

definition W4 :: "env \<Rightarrow> Cnf \<Rightarrow> nat \<Rightarrow> rng \<Rightarrow> lit_t option \<times> rng" where
  "W4 E c q g =
     (let (all, g1) = flip E (PARAM_non_greedy_choice E) g
      in W4_scan (W4_choice E) all (cost c) (clause_lits c (f c ! q)) (lit_max E) 1 (None, g1))"

text \<open>W5, the body of the loop over \<^verbatim>\<open>invclause[pos]\<close>; \<open>v\<close> is \<^verbatim>\<open>var(choice)\<close>.\<close>

definition W5_lost :: "nat \<Rightarrow> clause_t \<Rightarrow> Cnf \<Rightarrow> Cnf" where
  "W5_lost v i c =
     (let c1 = c\<lparr>numtrue := (numtrue c)[i := numtrue c ! i - 1]\<rparr>
      in if numtrue c1 ! i = 0
         then (let c2 = register_unsatisfied c1 i
               in c2\<lparr>cost := (cost c2)[v := cost c2 ! v - 1]\<rparr>)
         else if numtrue c1 ! i = 1
         then (case find (is_true c1) (clause_lits c1 i) of
                 Some l \<Rightarrow> c1\<lparr>cost := (cost c1)[var l := cost c1 ! var l + 1]\<rparr>
               | None \<Rightarrow> c1)
         else c1)"

text \<open>W5, the body of the loop over \<^verbatim>\<open>invclause[neg]\<close>.\<close>

definition W5_gained :: "nat \<Rightarrow> lit_t \<Rightarrow> clause_t \<Rightarrow> Cnf \<Rightarrow> Cnf" where
  "W5_gained v neg i c =
     (let c1 = c\<lparr>numtrue := (numtrue c)[i := numtrue c ! i + 1]\<rparr>
      in if numtrue c1 ! i = 1
         then (let c2 = register_satisfied c1 i
               in c2\<lparr>cost := (cost c2)[v := cost c2 ! v + 1]\<rparr>)
         else if numtrue c1 ! i = 2
         then (case find (\<lambda>l. l \<noteq> neg \<and> is_true c1 l) (clause_lits c1 i) of
                 Some l \<Rightarrow> c1\<lparr>cost := (cost c1)[var l := cost c1 ! var l - 1]\<rparr>
               | None \<Rightarrow> c1)
         else c1)"

definition W5 :: "Cnf \<Rightarrow> lit_t \<Rightarrow> Cnf" where
  "W5 c choice =
     (let pos = (if val c ! var choice = (choice > 0) then choice else - choice);
          neg = - pos;
          c1 = c\<lparr>val := (val c)[var choice := \<not> val c ! var choice]\<rparr>;
          c2 = fold (W5_lost (var choice)) (invclause c1 pos) c1
      in fold (W5_gained (var choice) neg) (invclause c2 neg) c2)"

text \<open>
  One pass from W3 to the end of W5, entered with \<open>f\<close> non-empty: the literal flipped, the
  new state and the random source; \<open>None\<close> when W3 never accepts a draw.
\<close>

definition solve_body :: "env \<Rightarrow> Cnf \<Rightarrow> rng \<Rightarrow> (error + lit_t \<times> Cnf \<times> rng) option" where
  "solve_body E c g =
     (case W3 E c g of
        None \<Rightarrow> None
      | Some (Inl e) \<Rightarrow> Some (Inl e)
      | Some (Inr (q, g1)) \<Rightarrow>
          (case W4 E c q g1 of
             (None, g2) \<Rightarrow> Some (Inl CHECK_failed)
           | (Some choice, g2) \<Rightarrow> Some (Inr (choice, W5 c choice, g2))))"

text \<open>The \<^verbatim>\<open>while (true)\<close> loop of \<open>solve\<close>.\<close>

partial_function (option) solve_loop :: "env \<Rightarrow> Cnf \<Rightarrow> rng \<Rightarrow> (error + bool \<times> Cnf \<times> rng) option" where
  "solve_loop E c g =
     (if f c = [] then Some (Inr (True, c, g))
      else case solve_body E c g of
             None \<Rightarrow> None
           | Some (Inl e) \<Rightarrow> Some (Inl e)
           | Some (Inr (choice, c', g')) \<Rightarrow> solve_loop E c' g')"

definition solve :: "env \<Rightarrow> Cnf \<Rightarrow> rng \<Rightarrow> (error + bool \<times> Cnf \<times> rng) option" where
  "solve E c g = (let (c1, g1) = W1 E c g in solve_loop E c1 g1)"

text \<open>
  The run observed at its loop boundaries: the literals flipped by the first \<open>n\<close> passes and
  the state at the \<open>n\<close>-th return to W2, when the loop gets that far.
\<close>

fun solve_iter :: "env \<Rightarrow> nat \<Rightarrow> Cnf \<Rightarrow> rng \<Rightarrow> (lit_t list \<times> Cnf \<times> rng) option" where
  "solve_iter E 0 c g = Some ([], c, g)"
| "solve_iter E (Suc n) c g =
     (if f c = [] then None
      else case solve_body E c g of
             Some (Inr (choice, c', g')) \<Rightarrow>
               map_option (\<lambda>(flips, r). (choice # flips, r)) (solve_iter E n c' g')
           | _ \<Rightarrow> None)"

subsection \<open>main\<close>

datatype exit = SAT_EXIT Cnf | UNSAT_EXITED | ABORTED | RETURNED

text \<open>
  \<open>main\<close> after the flags are read: \<^verbatim>\<open>if (c.clauses.empty() || solve(&c)) { SAT_EXIT(&c); }\<close>
  The value is \<open>None\<close> when \<open>solve\<close> never returns.
\<close>

definition main :: "env \<Rightarrow> (nat \<Rightarrow> rng) \<Rightarrow> nat \<Rightarrow> nat \<Rightarrow> int \<Rightarrow> int \<Rightarrow> int list \<Rightarrow> exit option" where
  "main E srand FLAGS_seed now nv nc toks =
     (case parse E nv nc toks of
        UNSAT_EXIT \<Rightarrow> Some UNSAT_EXITED
      | CHECK_FAILED \<Rightarrow> Some ABORTED
      | Parsed c \<Rightarrow>
          if clauses c = [] then Some (SAT_EXIT c)
          else
            (case solve E c (Cnf_srand srand FLAGS_seed now) of
               None \<Rightarrow> None
             | Some (Inl e) \<Rightarrow> Some ABORTED
             | Some (Inr (True, c', g')) \<Rightarrow> Some (SAT_EXIT c')
             | Some (Inr (False, c', g')) \<Rightarrow> Some RETURNED))"

text \<open>
  What a run shows of its flips: the literals chosen by the first \<open>n\<close> passes of the loop
  (the values that \<^verbatim>\<open>LOG(2) << "Chose " << choice\<close> writes), when the run makes that many.
\<close>

definition main_flips :: "env \<Rightarrow> (nat \<Rightarrow> rng) \<Rightarrow> nat \<Rightarrow> nat \<Rightarrow> int \<Rightarrow> int \<Rightarrow> int list \<Rightarrow> nat \<Rightarrow> lit_t list option" where
  "main_flips E srand FLAGS_seed now nv nc toks n =
     (case parse E nv nc toks of
        Parsed c \<Rightarrow>
          if clauses c = [] then None
          else (let (c1, g1) = W1 E c (Cnf_srand srand FLAGS_seed now)
                in map_option fst (solve_iter E n c1 g1))
      | _ \<Rightarrow> None)"

section \<open>A platform for the examples\<close>

text \<open>
  The values of a usual 64-bit Linux build (32-bit \<^verbatim>\<open>int\<close> literals, unsigned 32-bit
  clause indices) and the default parameters of the source.
\<close>

definition env0 :: env where
  "env0 = \<lparr>RAND_MAX = 2147483647, lit_max = 2147483647, clause_max = 4294967295,
            PARAM_initial_bias = to_double (1 / 10),
            PARAM_non_greedy_choice = to_double (65 / 100)\<rparr>"

section \<open>Rounding\<close>

text \<open>
  Rounding to \<open>p\<close> bits is monotone and keeps a positive number between the two powers of
  two around it.
\<close>

lemma floor_rat_numeral:
  "\<lfloor>numeral a / numeral b :: rat\<rfloor> = numeral a div numeral b"
  using floor_divide_of_int_eq [of "numeral a" "numeral b", where ?'a = rat] by simp

lemmas fp_eval = fp_round_def expo_def rne_def bits.simps Let_def scale_def floor_rat_numeral



















lemma fp_round_one [simp]: "fp_round 24 1 = 1" "fp_round 53 1 = 1"
  by (simp_all add: fp_eval)


text \<open>The values that the examples meet.\<close>

lemma float_values:
  "to_float 0 = 0"
  "to_float 1 = 1"
  "to_float 2147483647 = 2147483648"
  "to_float 2000000000 = 2000000000"
  "to_float (1953125 / 2097152) = 1953125 / 2097152"
  by (simp_all add: to_float_def fp_eval)

lemma double_values:
  "to_double 1 = 1"
  "to_float (to_double (1 / 10)) = 13421773 / 134217728"
  "to_float (to_double (13 / 20)) = 5452595 / 8388608"
  "to_float (to_double (1 / 2)) = 1 / 2"
  by (simp_all add: to_float_def to_double_def fp_eval)

text \<open>
  Two draws on which the rounding decides: 214748365 is more than a tenth of \<^verbatim>\<open>RAND_MAX\<close>
  and \<open>2\<^sup>3\<^sup>0\<close> more than half of it, and \<^verbatim>\<open>flip\<close> returns true on both.
\<close>

lemma flip_rounded_draws:
  "fst (flip env0 (PARAM_initial_bias env0) (\<lambda>i. 214748365))"
  "fst (flip env0 (to_double (1 / 2)) (\<lambda>i. 1073741824))"
  by (simp_all add: flip_def rand_def env0_def to_float_def to_double_def fp_eval)

lemma flip_eq:
  "flip E p g =
     (to_float (of_nat (RAND_MAX E)) \<noteq> 0 \<and>
      to_float (to_float (of_nat (g 0)) / to_float (of_nat (RAND_MAX E))) \<le> to_float p,
      \<lambda>i. g (Suc i))"
  by (simp add: flip_def rand_def Let_def)

section \<open>The stack of unsatisfied clauses and its reverse index\<close>

text \<open>
  \<open>f\<close> has no duplicates, every position of \<open>f\<close> is recorded in \<open>w\<close>, and every
  entry of \<open>w\<close> that is not nil points at its clause in \<open>f\<close>.
\<close>

definition fw_inv :: "Cnf \<Rightarrow> bool" where
  "fw_inv c \<longleftrightarrow>
     length (w c) = nclauses c \<and> distinct (f c) \<and>
     (\<forall>p < length (f c). f c ! p < nclauses c \<and> w c ! (f c ! p) = Some p) \<and>
     (\<forall>k < nclauses c. \<forall>p. w c ! k = Some p \<longrightarrow> p < length (f c) \<and> f c ! p = k)"

lemma register_satisfied_eq:
  assumes "fw_inv c" "k < nclauses c" "w c ! k = Some p"
  shows "register_satisfied c k =
           c\<lparr>w := (w c)[last (f c) := Some p, k := None],
             f := butlast ((f c)[p := last (f c)])\<rparr>"
proof -
  from assms have p: "p < length (f c)" "f c ! p = k" by (auto simp: fw_inv_def)
  then have ne: "f c \<noteq> []" by auto
  have l: "f c ! (length (f c) - Suc 0) = last (f c)" using ne by (simp add: last_conv_nth)
  have "last (f c) \<in> set (f c)" using ne by simp
  then obtain q where q: "q < length (f c)" "f c ! q = last (f c)" by (auto simp: in_set_conv_nth)
  from assms(1) q(1) have "f c ! q < length (w c)" by (simp add: fw_inv_def)
  then have lt: "last (f c) < length (w c)" by (simp only: q(2))
  have wk: "(w c)[last (f c) := Some p] ! k = Some p"
    using assms lt by (cases "last (f c) = k") auto
  show ?thesis
    using assms p ne
    by (simp add: register_satisfied_def Let_def l wk butlast_conv_take)
qed

lemma register_satisfied_fw_inv:
  assumes inv: "fw_inv c" and k: "k < nclauses c" and wk: "w c ! k = Some p"
  shows "fw_inv (register_satisfied c k)"
    and "f (register_satisfied c k) = butlast ((f c)[p := last (f c)])"
    and "set (f (register_satisfied c k)) = set (f c) - {k}"
    and "length (f (register_satisfied c k)) = length (f c) - 1"
    and "w (register_satisfied c k) = (w c)[last (f c) := Some p, k := None]"
proof -
  let ?c' = "register_satisfied c k"
  let ?n = "length (f c)"
  from assms have p: "p < ?n" "f c ! p = k" by (auto simp: fw_inv_def)
  then have ne: "f c \<noteq> []" by auto
  have eq: "?c' = c\<lparr>w := (w c)[last (f c) := Some p, k := None],
             f := butlast ((f c)[p := last (f c)])\<rparr>"
    using assms by (rule register_satisfied_eq)
  show f_eq: "f ?c' = butlast ((f c)[p := last (f c)])" by (simp add: eq)
  show w_eq: "w ?c' = (w c)[last (f c) := Some p, k := None]" by (simp add: eq)
  show len: "length (f ?c') = ?n - 1" by (simp add: f_eq)
  have lastn: "last (f c) = f c ! (?n - 1)" using ne by (simp add: last_conv_nth)
  have dist: "distinct (f c)" using inv by (simp add: fw_inv_def)
  have nth': "f ?c' ! q = (if q = p then last (f c) else f c ! q)" if "q < ?n - 1" for q
    using that p by (simp add: f_eq nth_butlast nth_list_update)
  have fpos: "f c ! q < nclauses c \<and> w c ! (f c ! q) = Some q" if "q < ?n" for q
    using inv that by (simp add: fw_inv_def)
  have wl: "length (w c) = nclauses c" using inv by (simp add: fw_inv_def)
  have neq_k: "f ?c' ! q \<noteq> k" if "q < ?n - 1" for q
  proof (cases "q = p")
    case True
    then have "p \<noteq> ?n - 1" using that by simp
    then have "f c ! (?n - 1) \<noteq> f c ! p"
      using nth_eq_iff_index_eq [OF dist, of "?n - 1" p] p(1) by simp
    then show ?thesis using that True p by (simp add: nth' lastn)
  next
    case False
    then have "f c ! q \<noteq> f c ! p"
      using nth_eq_iff_index_eq [OF dist, of q p] p(1) that by simp
    then show ?thesis using that False p by (simp add: nth')
  qed
  show set_eq: "set (f ?c') = set (f c) - {k}"
  proof (rule set_eqI, rule iffI)
    fix x assume "x \<in> set (f ?c')"
    then obtain q where q: "q < ?n - 1" "f ?c' ! q = x"
      using len by (auto simp: in_set_conv_nth)
    have "x \<in> set (f c)"
      using q ne by (auto simp: nth' lastn split: if_splits)
    moreover have "x \<noteq> k" using neq_k q by auto
    ultimately show "x \<in> set (f c) - {k}" by simp
  next
    fix x assume "x \<in> set (f c) - {k}"
    then obtain q where q: "q < ?n" "f c ! q = x" "x \<noteq> k"
      by (auto simp: in_set_conv_nth)
    then have qp: "q \<noteq> p" using p by auto
    show "x \<in> set (f ?c')"
    proof (cases "q = ?n - 1")
      case True
      then have "p < ?n - 1" using p qp q by simp
      moreover from this have "f ?c' ! p = x" using True q by (simp add: nth' lastn)
      ultimately show ?thesis using nth_mem [of p "f ?c'"] by (simp add: len)
    next
      case False
      then have "q < ?n - 1" using q by simp
      moreover from this have "f ?c' ! q = x" using qp q by (simp add: nth')
      ultimately show ?thesis using nth_mem [of q "f ?c'"] by (simp add: len)
    qed
  qed
  have dist': "distinct (f ?c')"
  proof -
    have "k \<in> set (f c)" using nth_mem [of p "f c"] p by simp
    then have "card (set (f c) - {k}) = card (set (f c)) - 1" by simp
    also have "\<dots> = length (f c) - 1" using distinct_card [OF dist] by simp
    finally have "card (set (f ?c')) = length (f ?c')"
      by (simp only: set_eq len)
    then show ?thesis by (rule card_distinct)
  qed
  have pos': "f ?c' ! q < nclauses c \<and> w ?c' ! (f ?c' ! q) = Some q" if "q < ?n - 1" for q
  proof (cases "q = p")
    case True
    have "last (f c) < nclauses c" using fpos [of "?n - 1"] ne by (simp add: lastn)
    moreover have "last (f c) \<noteq> k" using neq_k [OF that] that True by (simp add: nth')
    ultimately show ?thesis using that True wl by (simp add: nth' w_eq)
  next
    case False
    have a: "f c ! q < nclauses c" "w c ! (f c ! q) = Some q" using fpos [of q] that by auto
    have b: "f c ! q \<noteq> k" using neq_k [OF that] that False by (simp add: nth')
    have "f c ! q \<noteq> f c ! (?n - 1)"
      using nth_eq_iff_index_eq [OF dist, of q "?n - 1"] that by simp
    then have c: "f c ! q \<noteq> last (f c)" by (simp add: lastn)
    show ?thesis using that False a b c wl by (simp add: nth' w_eq)
  qed
  have back': "q < ?n - 1 \<and> f ?c' ! q = j" if "j < nclauses c" "w ?c' ! j = Some q" for j q
  proof (cases "j = last (f c)")
    case True
    then have "j \<noteq> k" using that wl by (auto simp: w_eq)
    then have "q = p" using that True wl by (simp add: w_eq)
    moreover have "p \<noteq> ?n - 1" using \<open>j \<noteq> k\<close> True p by (auto simp: lastn)
    ultimately show ?thesis using p True by (simp add: nth')
  next
    case False
    then have jk: "j \<noteq> k" using that wl by (auto simp: w_eq)
    then have "w c ! j = Some q" using that False by (simp add: w_eq)
    then have q: "q < ?n" "f c ! q = j" using inv that by (auto simp: fw_inv_def)
    then have "q \<noteq> ?n - 1" using False by (auto simp: lastn)
    moreover have "q \<noteq> p" using jk q p by auto
    ultimately show ?thesis using q by (simp add: nth')
  qed
  show "fw_inv ?c'"
    unfolding fw_inv_def
    using dist' pos' back' wl by (simp add: len w_eq) (simp add: eq)
qed


text \<open>
  C5. With the invariant of \<open>f\<close> and \<open>w\<close> and \<open>w[k]\<close> not nil,
  \<open>register_satisfied(k)\<close> removes \<open>k\<close> from \<open>f\<close>, which shrinks by exactly one
  element; \<open>w[k]\<close> becomes nil; the reverse index of the last element of \<open>f\<close>, the one
  moved into the slot of \<open>k\<close>, is written first and the entry of \<open>k\<close> after it (so
  that the nil stays when \<open>k\<close> itself is the last element); and the invariant holds again:
  \<open>f[w[j]] = j\<close> for every clause \<open>j\<close> still in \<open>f\<close>.
\<close>

theorem register_satisfied_removes:
  assumes "fw_inv c" and "k < nclauses c" and "w c ! k \<noteq> None"
  shows "length (f c) = Suc (length (f (register_satisfied c k))) \<and>
         set (f (register_satisfied c k)) = set (f c) - {k} \<and>
         w (register_satisfied c k) ! k = None \<and>
         w (register_satisfied c k) = (w c)[last (f c) := w c ! k, k := None] \<and>
         fw_inv (register_satisfied c k) \<and>
         (\<forall>j \<in> set (f (register_satisfied c k)).
            w (register_satisfied c k) ! j \<noteq> None \<and>
            f (register_satisfied c k) ! the (w (register_satisfied c k) ! j) = j)"
proof -
  let ?c' = "register_satisfied c k"
  from assms(3) obtain p where wk: "w c ! k = Some p" by auto
  note r = register_satisfied_fw_inv [OF assms(1,2) wk]
  from assms(1,2) wk have "p < length (f c)" by (simp add: fw_inv_def)
  then have len: "length (f c) = Suc (length (f ?c'))" by (simp add: r(4))
  have "k < length (w c)" using assms(1,2) by (simp add: fw_inv_def)
  then have wnil: "w ?c' ! k = None" by (simp add: r(5))
  have still: "w ?c' ! j \<noteq> None \<and> f ?c' ! the (w ?c' ! j) = j" if "j \<in> set (f ?c')" for j
  proof -
    from that obtain q where q: "q < length (f ?c')" "f ?c' ! q = j"
      by (auto simp: in_set_conv_nth)
    with r(1) have "w ?c' ! j = Some q" by (auto simp: fw_inv_def)
    with q show ?thesis by simp
  qed
  show ?thesis using len r(3) wnil r(5) r(1) still by (simp add: wk)
qed

theorem register_satisfied_removes_witness:
  "fw_inv ((Cnf_new 0 2)\<lparr>f := [1, 0], w := [Some 1, Some 0]\<rparr>) \<and>
   0 < nclauses ((Cnf_new 0 2)\<lparr>f := [1, 0], w := [Some 1, Some 0]\<rparr>) \<and>
   last (f ((Cnf_new 0 2)\<lparr>f := [1, 0], w := [Some 1, Some 0]\<rparr>)) = 0 \<and>
   f (register_satisfied ((Cnf_new 0 2)\<lparr>f := [1, 0], w := [Some 1, Some 0]\<rparr>) 0) = [1] \<and>
   w (register_satisfied ((Cnf_new 0 2)\<lparr>f := [1, 0], w := [Some 1, Some 0]\<rparr>) 0) = [None, Some 0] \<and>
   fw_inv (register_satisfied ((Cnf_new 0 2)\<lparr>f := [1, 0], w := [Some 1, Some 0]\<rparr>) 0)"
proof -
  let ?c = "(Cnf_new 0 2)\<lparr>f := [1, 0], w := [Some 1, Some 0]\<rparr>"
  have h1: "fw_inv ?c"
    by (simp add: fw_inv_def Cnf_new_def less_Suc_eq numeral_2_eq_2 nth_Cons')
  have h2: "0 < nclauses ?c" by (simp add: Cnf_new_def)
  have h3: "w ?c ! 0 \<noteq> None" by simp
  from register_satisfied_removes [OF h1 h2 h3]
  have "fw_inv (register_satisfied ?c 0)" by simp
  moreover have "f (register_satisfied ?c 0) = [1]" "w (register_satisfied ?c 0) = [None, Some 0]"
    by (simp_all add: register_satisfied_def Cnf_new_def)
  ultimately show ?thesis using h1 h2 by simp
qed

section \<open>The printed assignment\<close>

text \<open>
  C6. The input \<^verbatim>\<open>p cnf 1 1\<close>, \<^verbatim>\<open>1 0\<close> run to the end (with the generator drawing 0
  every time): the program exits SAT with \<open>val[1]\<close> true, the only model, and
  \<open>print_assignment\<close> writes it as the negative literal, \<^verbatim>\<open>v -1 0\<close>.
\<close>

theorem print_assignment_sign_inverted:
  "\<exists>c. main env0 (\<lambda>seed i. 0) 1 0 1 1 [1, 0] = Some (SAT_EXIT c) \<and>
       val c ! 1 = True \<and> is_satisfied c 0 \<and>
       print_assignment c = ''v -1 0'' @ [CHR 0x0A]"
proof -
  have p: "parse env0 1 1 [1, 0] = Parsed ((Cnf_new 1 1)\<lparr>clauses := [1], start := [0]\<rparr>)"
    by (simp add: parse_def env0_def Cnf_new_def read_clauses.simps)
  have "main env0 (\<lambda>seed i. 0) 1 0 1 1 [1, 0] =
        Some (SAT_EXIT \<lparr>clauses = [1], start = [0], val = [False, True], cost = [0, 1],
          invclause = (\<lambda>l. [])(1 := [0]), f = [], numtrue = [1], w = [None],
          nvars = 1, nclauses = 1\<rparr>)"
    apply (simp add: main_def p)
    apply (simp add: solve_def Cnf_srand_def Cnf_seed_def)
    apply (simp add: W1_def W1_val_def W1_clause_def W1_lit_def flip_eq env0_def
        float_values double_values Cnf_new_def clause_begin_def clause_end_def is_true_def
        var_def)
    apply (subst solve_loop.simps)
    apply simp
    done
  then show ?thesis
    by (simp add: print_assignment_def digit_def is_satisfied_def clause_lits_def
        clause_begin_def clause_end_def is_true_def var_def)
qed

section \<open>Parsing\<close>


lemma read_lits_eof:
  "0 \<notin> set ls \<Longrightarrow> read_lits ls cl rl = (True, [], cl @ ls, rl \<or> ls \<noteq> [])"
  by (induction ls arbitrary: cl rl) auto



lemma read_clauses_last:
  assumes "0 \<notin> set ls" "ls \<noteq> []"
  shows "read_clauses ls c =
         Parsed (c\<lparr>clauses := clauses c @ ls, start := start c @ [length (clauses c)]\<rparr>)"
  using assms by (subst read_clauses.simps) (simp add: read_lits_eof)

lemma read_clauses_end: "read_clauses [] c = Parsed c"
  by (subst read_clauses.simps) simp





lemma read_lits_result:
  "read_lits toks cl rl = (eof, rest, cl', rl') \<Longrightarrow>
   length cl \<le> length cl' \<and> (rl' \<longrightarrow> rl \<or> length cl < length cl')"
proof (induction toks arbitrary: cl rl)
  case Nil
  then show ?case by simp
next
  case (Cons lit toks)
  show ?case
  proof (cases "lit = 0")
    case True
    with Cons.prems show ?thesis by simp
  next
    case False
    with Cons.prems have "read_lits toks (cl @ [lit]) True = (eof, rest, cl', rl')" by simp
    from Cons.IH [OF this] show ?thesis by simp
  qed
qed

lemma read_clauses_frame:
  "read_clauses toks c = Parsed c' \<Longrightarrow>
   c' = c\<lparr>clauses := clauses c', start := start c'\<rparr> \<and>
   length (clauses c) \<le> length (clauses c') \<and>
   (length (clauses c') = length (clauses c) \<longrightarrow> start c' = start c)"
proof (induction toks c rule: read_clauses.induct)
  case (1 toks c)
  obtain eof rest cl rl where r: "read_lits toks (clauses c) False = (eof, rest, cl, rl)"
    by (metis prod_cases4)
  note rr = read_lits_result [OF r]
  show ?case
  proof (cases "rl \<and> \<not> eof")
    case True
    let ?c1 = "c\<lparr>clauses := cl, start := start c @ [length (clauses c)]\<rparr>"
    from True rr have ne: "length (clauses c) \<noteq> length cl" by auto
    with "1.prems" True r have rc: "read_clauses rest ?c1 = Parsed c'"
      by (subst (asm) read_clauses.simps) simp
    have "c' = ?c1\<lparr>clauses := clauses c', start := start c'\<rparr> \<and>
          length (clauses ?c1) \<le> length (clauses c') \<and>
          (length (clauses c') = length (clauses ?c1) \<longrightarrow> start c' = start ?c1)"
      by (rule "1.IH" [of "length (clauses c)" eof "(rest, cl, rl)" rest "(cl, rl)" cl rl ?c1])
         (use r True ne rc in simp_all)
    with True ne rr show ?thesis by auto
  next
    case False
    with "1.prems" r rr show ?thesis
      by (subst (asm) read_clauses.simps) (auto simp: Let_def split: if_splits)
  qed
qed

lemma parse_no_literals:
  assumes "parse E nv nc toks = Parsed c" and "clauses c = []"
  shows "c = Cnf_new (nat nv) 0"
proof -
  let ?c0 = "Cnf_new (nat nv) (nat nc)"
  from assms(1) have rc: "read_clauses toks ?c0 = Parsed c"
    and len: "length (start c) = nclauses c"
    by (auto simp: parse_def split: if_splits parsed.splits)
  from read_clauses_frame [OF rc]
  have fr: "c = ?c0\<lparr>clauses := clauses c, start := start c\<rparr>"
    and imp: "length (clauses c) = length (clauses ?c0) \<longrightarrow> start c = start ?c0"
    by blast+
  have st: "start c = []" using imp assms(2) by (simp add: Cnf_new_def)
  have c: "c = ?c0\<lparr>clauses := [], start := []\<rparr>"
    using fr by (simp only: assms(2) st)
  have "nclauses c = nat nc" by (subst c) (simp add: Cnf_new_def)
  with len st have "nat nc = 0" by simp
  then show ?thesis by (subst c) (simp add: Cnf_new_def)
qed

text \<open>
  C10. When \<open>parse\<close> returns a formula whose literal array is empty, \<open>main\<close> exits SAT
  with that formula, whatever the random source is: \<open>solve\<close> is not called. The formula
  is the freshly constructed one, with no clause, and its assignment is the
  zero-initialised vector: every variable false.
\<close>

theorem no_literals_exits_sat:
  assumes "parse E nv nc toks = Parsed c" and "clauses c = []"
  shows "main E srand FLAGS_seed now nv nc toks = Some (SAT_EXIT c) \<and>
         c = Cnf_new (nat nv) 0 \<and>
         val c = replicate (nvars c + 1) False \<and>
         (\<forall>v \<le> nvars c. val c ! v = False)"
proof -
  have c: "c = Cnf_new (nat nv) 0" using assms by (rule parse_no_literals)
  have m: "main E srand FLAGS_seed now nv nc toks = Some (SAT_EXIT c)"
    using assms by (simp add: main_def)
  have valc: "val c = replicate (nvars c + 1) False"
    by (subst c)+ (simp add: Cnf_new_def)
  have "\<forall>v \<le> nvars c. val c ! v = False"
  proof (intro allI impI)
    fix v assume "v \<le> nvars c"
    then have "v < nvars c + 1" by simp
    then show "val c ! v = False" by (simp only: valc nth_replicate)
  qed
  with m c valc show ?thesis by blast
qed

theorem no_literals_exits_sat_witness:
  "parse env0 3 0 [] = Parsed (Cnf_new 3 0) \<and> clauses (Cnf_new 3 0) = [] \<and>
   main env0 (\<lambda>seed i. 0) 1 0 3 0 [] = Some (SAT_EXIT (Cnf_new 3 0)) \<and>
   val (Cnf_new 3 0) = [False, False, False, False]"
proof -
  have h1: "parse env0 3 0 [] = Parsed (Cnf_new 3 0)"
    by (simp add: parse_def env0_def read_clauses_end) (simp add: Cnf_new_def)
  have h2: "clauses (Cnf_new 3 0) = []" by (simp add: Cnf_new_def)
  from no_literals_exits_sat [OF h1 h2, of "\<lambda>seed i. 0" 1 0] h1 h2
  show ?thesis by (simp add: Cnf_new_def numeral_3_eq_3)
qed

section \<open>The random source over runs\<close>

text \<open>
  C9. With a seed other than 0 the wall-clock time is not read: two runs of the program on
  the same input, started at any two times, draw the same sequence from the generator, flip
  the same literals pass after pass, and end alike, with the same final state when they
  return.
\<close>

theorem fixed_seed_deterministic:
  assumes "FLAGS_seed \<noteq> 0"
  shows "Cnf_srand srand FLAGS_seed now = Cnf_srand srand FLAGS_seed now' \<and>
         (\<forall>n. main_flips E srand FLAGS_seed now nv nc toks n =
              main_flips E srand FLAGS_seed now' nv nc toks n) \<and>
         main E srand FLAGS_seed now nv nc toks = main E srand FLAGS_seed now' nv nc toks"
proof -
  have seed: "Cnf_seed FLAGS_seed now = Cnf_seed FLAGS_seed now'"
    using assms by (simp add: Cnf_seed_def)
  show ?thesis
    unfolding main_flips_def main_def Cnf_srand_def seed by simp
qed


theorem fixed_seed_deterministic_witness:
  "(5::nat) \<noteq> 0 \<and>
   main env0 (\<lambda>seed i. seed * i) 5 100 1 1 [1, 0] = main env0 (\<lambda>seed i. seed * i) 5 200 1 1 [1, 0]"
  using fixed_seed_deterministic [of 5 "\<lambda>seed i. seed * i" 100 200 env0 1 1 "[1, 0]"] by simp

section \<open>W3: the choice of a clause\<close>

lemma W3_loop_accept:
  "g 0 div divisor < n \<Longrightarrow> W3_loop divisor n g = Some (g 0 div divisor, \<lambda>i. g (Suc i))"
  by (subst W3_loop.simps) (simp add: rand_def)

lemma W3_loop_reject:
  "\<not> g 0 div divisor < n \<Longrightarrow> W3_loop divisor n g = W3_loop divisor n (\<lambda>i. g (Suc i))"
  by (subst W3_loop.simps) (simp add: rand_def)

lemma W3_loop_first:
  assumes "\<forall>j < i. \<not> g j div divisor < n" and "g i div divisor < n"
  shows "W3_loop divisor n g = Some (g i div divisor, \<lambda>j. g (Suc (i + j)))"
  using assms
proof (induction i arbitrary: g)
  case 0
  then show ?case by (simp add: W3_loop_accept)
next
  case (Suc i)
  let ?g = "\<lambda>j. g (Suc j)"
  from Suc.prems have "\<not> g 0 div divisor < n" by blast
  then have "W3_loop divisor n g = W3_loop divisor n ?g" by (rule W3_loop_reject)
  also have "\<dots> = Some (?g i div divisor, \<lambda>j. ?g (Suc (i + j)))"
    using Suc.prems by (intro Suc.IH) auto
  finally show ?case by simp
qed

lemma W3_loop_Some:
  assumes "W3_loop divisor n g = Some y"
  shows "\<exists>i. g i div divisor < n"
proof (rule W3_loop.raw_induct [where P = "\<lambda>d m h y. \<exists>i. h i div d < m", OF _ assms])
  fix loop d m h y
  assume IH: "\<And>d m h y. loop d m h = Some y \<Longrightarrow> \<exists>i. h i div d < m"
    and body: "(let (r, g') = rand h; q = r div d
                in if m \<le> q then loop d m g' else Some (q, g')) = Some y"
  show "\<exists>i. h i div d < m"
  proof (cases "h 0 div d < m")
    case True
    then show ?thesis by blast
  next
    case False
    with body have "loop d m (\<lambda>i. h (Suc i)) = Some y"
      by (simp add: rand_def)
    then have "\<exists>i. h (Suc i) div d < m" by (rule IH)
    then show ?thesis by blast
  qed
qed

lemma W3_loop_None:
  "(\<forall>i. \<not> g i div divisor < n) \<Longrightarrow> W3_loop divisor n g = None"
  using W3_loop_Some [of divisor n g] by (cases "W3_loop divisor n g") auto

lemma div_preimage:
  fixes d :: nat
  assumes "0 < d"
  shows "{r. r div d = q} = {q * d ..< q * d + d}"
proof -
  have "(r div d = q) = (q * d \<le> r \<and> r < q * d + d)" for r
  proof
    assume "r div d = q"
    then show "q * d \<le> r \<and> r < q * d + d"
      using assms dividend_less_div_times [of d r] by (auto simp: algebra_simps)
  next
    assume "q * d \<le> r \<and> r < q * d + d"
    then have "d * q \<le> r" "r < d * Suc q" by (simp_all add: algebra_simps)
    then show "r div d = q" by (rule div_nat_eqI)
  qed
  then show ?thesis by (intro set_eqI) (simp only: mem_Collect_eq atLeastLessThan_iff)
qed


text \<open>
  C8, as amended. For a non-empty \<open>f\<close> of at most \<open>RAND_MAX + 1\<close> clauses (and
  \<open>RAND_MAX + 1\<close> a \<^verbatim>\<open>clause_t\<close>) the divisor is positive; every index below
  \<open>|f|\<close> is the quotient of exactly \<open>divisor\<close> of the \<open>RAND_MAX + 1\<close> possible draws,
  so a uniform draw gives a uniform index, with no modulo bias; at least half of the possible
  draws are accepted; the loop returns at the first accepted draw, with that draw's quotient,
  which is below \<open>|f|\<close>; and on a sequence of draws without an accepted one it never
  returns.
\<close>

theorem W3_rejection_sampling:
  assumes "f c \<noteq> []" and "length (f c) \<le> RAND_MAX E + 1" and "RAND_MAX E < clause_max E"
  shows "0 < (RAND_MAX E + 1) div length (f c) \<and>
         (\<forall>q < length (f c).
            card {r. r \<le> RAND_MAX E \<and> r div ((RAND_MAX E + 1) div length (f c)) = q} =
            (RAND_MAX E + 1) div length (f c)) \<and>
         RAND_MAX E + 1 \<le> 2 * ((RAND_MAX E + 1) div length (f c) * length (f c)) \<and>
         (\<forall>i. (\<forall>j < i. \<not> g j div ((RAND_MAX E + 1) div length (f c)) < length (f c)) \<and>
              g i div ((RAND_MAX E + 1) div length (f c)) < length (f c) \<longrightarrow>
              W3 E c g = Some (Inr (g i div ((RAND_MAX E + 1) div length (f c)),
                                    \<lambda>j. g (Suc (i + j))))) \<and>
         ((\<forall>i. \<not> g i div ((RAND_MAX E + 1) div length (f c)) < length (f c)) \<longrightarrow>
              W3 E c g = None)"
proof -
  define N where "N = RAND_MAX E + 1"
  define n where "n = length (f c)"
  define d where "d = N div n"
  have n: "0 < n" "n \<le> N" using assms by (simp_all add: n_def N_def)
  then have d: "0 < d" by (simp add: d_def div_greater_zero_iff)
  have dn: "d * n \<le> N" by (simp add: d_def)
  have W3: "W3 E c g = map_option Inr (W3_loop d n g)"
    using assms(3) d by (simp add: W3_def d_def n_def N_def)
  have cnt: "card {r. r \<le> RAND_MAX E \<and> r div d = q} = d" if "q < n" for q
  proof -
    from that have "Suc q * d \<le> n * d" by (intro mult_le_mono1) simp
    then have up: "q * d + d \<le> N" using dn by (simp add: mult.commute)
    have "{r. r \<le> RAND_MAX E \<and> r div d = q} = {r. r div d = q} \<inter> {r. r < N}"
      by (auto simp: N_def)
    also have "\<dots> = {q * d ..< q * d + d}"
      using up by (auto simp: div_preimage [OF d])
    finally show ?thesis by simp
  qed
  have half: "N \<le> 2 * (d * n)"
  proof -
    have "n \<le> d * n" using d by simp
    moreover have "N mod n < n" using n(1) by simp
    moreover have "N = d * n + N mod n" by (simp add: d_def)
    ultimately show ?thesis by linarith
  qed
  have first: "W3 E c g = Some (Inr (g i div d, \<lambda>j. g (Suc (i + j))))"
    if "\<forall>j < i. \<not> g j div d < n" "g i div d < n" for i
    using W3_loop_first [OF that] by (simp add: W3)
  have never: "W3 E c g = None" if "\<forall>i. \<not> g i div d < n"
    using W3_loop_None [OF that] by (simp add: W3)
  show ?thesis
    using d cnt half first never unfolding d_def n_def N_def by blast
qed

theorem W3_rejection_sampling_witness:
  "f ((Cnf_new 0 3)\<lparr>f := [0, 1, 2]\<rparr>) \<noteq> [] \<and>
   length (f ((Cnf_new 0 3)\<lparr>f := [0, 1, 2]\<rparr>)) \<le> RAND_MAX env0 + 1 \<and>
   RAND_MAX env0 < clause_max env0 \<and>
   W3 env0 ((Cnf_new 0 3)\<lparr>f := [0, 1, 2]\<rparr>) (\<lambda>i. 1000000000) = Some (Inr (1, \<lambda>j. 1000000000))"
proof -
  let ?c = "(Cnf_new 0 3)\<lparr>f := [0, 1, 2]\<rparr>"
  let ?g = "\<lambda>i::nat. 1000000000::nat"
  have h: "f ?c \<noteq> []" "length (f ?c) \<le> RAND_MAX env0 + 1" "RAND_MAX env0 < clause_max env0"
    by (simp_all add: env0_def)
  have a: "(\<forall>j < 0. \<not> ?g j div ((RAND_MAX env0 + 1) div length (f ?c)) < length (f ?c)) \<and>
           ?g 0 div ((RAND_MAX env0 + 1) div length (f ?c)) < length (f ?c)"
    by (simp add: env0_def)
  from W3_rejection_sampling [OF h, of ?g] a
  have "W3 env0 ?c ?g = Some (Inr (?g 0 div ((RAND_MAX env0 + 1) div length (f ?c)),
                                   \<lambda>j. ?g (Suc (0 + j))))"
    by blast
  then have "W3 env0 ?c ?g = Some (Inr (1, ?g))" by (simp add: env0_def)
  with h show ?thesis by simp
qed

text \<open>
  C8 as stated fails on the draws: with three unsatisfied clauses and a generator that
  returns \<open>RAND_MAX\<close> every time, each quotient is 3 and the loop never ends.
\<close>

theorem W3_never_accepts_counterexample:
  "f ((Cnf_new 0 3)\<lparr>f := [0, 1, 2]\<rparr>) \<noteq> [] \<and>
   length (f ((Cnf_new 0 3)\<lparr>f := [0, 1, 2]\<rparr>)) \<le> RAND_MAX env0 + 1 \<and>
   W3 env0 ((Cnf_new 0 3)\<lparr>f := [0, 1, 2]\<rparr>) (\<lambda>i. RAND_MAX env0) = None"
proof -
  have "W3_loop 715827882 3 (\<lambda>i. 2147483647) = None"
    by (rule W3_loop_None) simp
  then show ?thesis by (simp add: W3_def env0_def Cnf_new_def numeral_3_eq_3 [symmetric])
qed

section \<open>The invariants of the loop\<close>

subsection \<open>What the state is compared with\<close>

definition count_true :: "Cnf \<Rightarrow> clause_t \<Rightarrow> nat" where
  "count_true c k = length (filter (is_true c) (clause_lits c k))"

definition formula_ok :: "Cnf \<Rightarrow> bool" where
  "formula_ok c \<longleftrightarrow>
     length (start c) = nclauses c \<and>
     (\<forall>k < nclauses c. clause_end c k \<le> length (clauses c)) \<and>
     (\<forall>k < nclauses c. \<forall>l \<in> set (clause_lits c k). l \<noteq> 0 \<and> var l \<le> nvars c)"

definition sized :: "Cnf \<Rightarrow> bool" where
  "sized c \<longleftrightarrow>
     length (val c) = nvars c + 1 \<and> length (cost c) = nvars c + 1 \<and>
     length (numtrue c) = nclauses c \<and> length (w c) = nclauses c"

definition index_ok :: "Cnf \<Rightarrow> bool" where
  "index_ok c \<longleftrightarrow>
     (\<forall>l k. count_list (invclause c l) k =
            (if k < nclauses c then count_list (clause_lits c k) l else 0))"

definition numtrue_ok :: "Cnf \<Rightarrow> bool" where
  "numtrue_ok c \<longleftrightarrow> (\<forall>k < nclauses c. numtrue c ! k = int (count_true c k))"

definition unsat_ok :: "Cnf \<Rightarrow> bool" where
  "unsat_ok c \<longleftrightarrow> (\<forall>k < nclauses c. (w c ! k \<noteq> None) = (numtrue c ! k = 0))"

definition same_formula :: "Cnf \<Rightarrow> Cnf \<Rightarrow> bool" where
  "same_formula c c' \<longleftrightarrow>
     clauses c' = clauses c \<and> start c' = start c \<and> val c' = val c \<and>
     invclause c' = invclause c \<and> nvars c' = nvars c \<and> nclauses c' = nclauses c \<and>
     length (cost c') = length (cost c)"

lemma same_formula_refl: "same_formula c c"
  by (simp add: same_formula_def)

lemma same_formula_trans: "same_formula a b \<Longrightarrow> same_formula b c \<Longrightarrow> same_formula a c"
  by (simp add: same_formula_def)

lemma same_formula_lits: "same_formula c c' \<Longrightarrow> clause_lits c' k = clause_lits c k"
  by (simp add: same_formula_def clause_lits_def clause_begin_def clause_end_def)

lemma same_formula_is_true: "same_formula c c' \<Longrightarrow> is_true c' l = is_true c l"
  by (simp add: same_formula_def is_true_def)

lemma same_formula_count_true: "same_formula c c' \<Longrightarrow> count_true c' k = count_true c k"
  using same_formula_lits [of c c' k] same_formula_is_true [of c c']
  by (simp add: count_true_def cong: filter_cong)

text \<open>The two registrations, field by field.\<close>

lemma register_unsatisfied_same: "same_formula c (register_unsatisfied c k)"
  by (simp add: register_unsatisfied_def same_formula_def Let_def)

lemma register_unsatisfied_numtrue: "numtrue (register_unsatisfied c k) = numtrue c"
  by (simp add: register_unsatisfied_def Let_def)

lemma register_unsatisfied_cost: "cost (register_unsatisfied c k) = cost c"
  by (simp add: register_unsatisfied_def Let_def)

lemma register_unsatisfied_new:
  "w c ! k = None \<Longrightarrow>
   w (register_unsatisfied c k) = (w c)[k := Some (length (f c))] \<and>
   f (register_unsatisfied c k) = f c @ [k]"
  by (simp add: register_unsatisfied_def Let_def)

lemma register_satisfied_same: "same_formula c (register_satisfied c k)"
  by (simp add: register_satisfied_def same_formula_def Let_def)

lemma register_satisfied_numtrue: "numtrue (register_satisfied c k) = numtrue c"
  by (simp add: register_satisfied_def Let_def)

lemma register_satisfied_cost: "cost (register_satisfied c k) = cost c"
  by (simp add: register_satisfied_def Let_def)

lemma register_unsatisfied_fw_inv:
  assumes "fw_inv c" and "k < nclauses c" and "w c ! k = None"
  shows "fw_inv (register_unsatisfied c k)"
proof -
  let ?c' = "register_unsatisfied c k"
  note new = register_unsatisfied_new [OF assms(3)]
  have nc: "nclauses ?c' = nclauses c" using register_unsatisfied_same [of c k]
    by (simp add: same_formula_def)
  have wl: "length (w c) = nclauses c" using assms(1) by (simp add: fw_inv_def)
  have notin: "k \<notin> set (f c)"
  proof
    assume "k \<in> set (f c)"
    then obtain p where "p < length (f c)" "f c ! p = k" by (auto simp: in_set_conv_nth)
    with assms(1) have "w c ! k = Some p" by (auto simp: fw_inv_def)
    with assms(3) show False by simp
  qed
  have pos: "f ?c' ! p < nclauses c \<and> w ?c' ! (f ?c' ! p) = Some p" if "p < length (f ?c')" for p
  proof (cases "p < length (f c)")
    case True
    with assms(1) have a: "f c ! p < nclauses c" "w c ! (f c ! p) = Some p"
      by (auto simp: fw_inv_def)
    have "f c ! p \<noteq> k" using notin True by (metis nth_mem)
    with True a show ?thesis by (simp add: new nth_append)
  next
    case False
    with that have "p = length (f c)" by (simp add: new)
    then show ?thesis using assms(2) wl by (simp add: new)
  qed
  have bk: "p < length (f ?c') \<and> f ?c' ! p = j" if "j < nclauses c" "w ?c' ! j = Some p" for j p
  proof (cases "j = k")
    case True
    with that wl assms(2) have "p = length (f c)" by (simp add: new)
    then show ?thesis using True by (simp add: new)
  next
    case False
    with that have "w c ! j = Some p" by (simp add: new)
    with assms(1) that(1) have "p < length (f c)" "f c ! p = j" by (auto simp: fw_inv_def)
    then show ?thesis by (simp add: new nth_append)
  qed
  have "distinct (f ?c')" using assms(1) notin by (simp add: new fw_inv_def)
  moreover have "length (w ?c') = nclauses c" using wl by (simp add: new)
  ultimately show ?thesis
    unfolding fw_inv_def nc using pos bk by blast
qed

subsection \<open>One step of each loop of W5\<close>

definition tracked :: "Cnf \<Rightarrow> bool" where
  "tracked c \<longleftrightarrow> sized c \<and> fw_inv c \<and> unsat_ok c \<and> (\<forall>k < nclauses c. 0 \<le> numtrue c ! k)"

lemma W5_lost_same: "same_formula c (W5_lost v i c)"
  using register_unsatisfied_same [of "c\<lparr>numtrue := (numtrue c)[i := numtrue c ! i - 1]\<rparr>" i]
  by (simp add: W5_lost_def Let_def same_formula_def register_unsatisfied_cost split: option.splits)

lemma W5_lost_numtrue: "numtrue (W5_lost v i c) = (numtrue c)[i := numtrue c ! i - 1]"
  by (simp add: W5_lost_def Let_def register_unsatisfied_numtrue split: option.splits)

lemma W5_lost_fw:
  "w (W5_lost v i c) =
     (if (numtrue c)[i := numtrue c ! i - 1] ! i = 0
      then w (register_unsatisfied c i) else w c) \<and>
   f (W5_lost v i c) =
     (if (numtrue c)[i := numtrue c ! i - 1] ! i = 0
      then f (register_unsatisfied c i) else f c)"
  by (simp add: W5_lost_def Let_def register_unsatisfied_def split: option.splits)

lemma W5_gained_same: "same_formula c (W5_gained v neg i c)"
  using register_satisfied_same [of "c\<lparr>numtrue := (numtrue c)[i := numtrue c ! i + 1]\<rparr>" i]
  by (simp add: W5_gained_def Let_def same_formula_def register_satisfied_cost split: option.splits)

lemma W5_gained_numtrue: "numtrue (W5_gained v neg i c) = (numtrue c)[i := numtrue c ! i + 1]"
  by (simp add: W5_gained_def Let_def register_satisfied_numtrue split: option.splits)

lemma W5_gained_fw:
  "w (W5_gained v neg i c) =
     (if (numtrue c)[i := numtrue c ! i + 1] ! i = 1
      then w (register_satisfied c i) else w c) \<and>
   f (W5_gained v neg i c) =
     (if (numtrue c)[i := numtrue c ! i + 1] ! i = 1
      then f (register_satisfied c i) else f c)"
  by (simp add: W5_gained_def Let_def register_satisfied_def split: option.splits)

lemma fw_inv_cong:
  "w c' = w c \<Longrightarrow> f c' = f c \<Longrightarrow> nclauses c' = nclauses c \<Longrightarrow> fw_inv c' = fw_inv c"
  by (simp add: fw_inv_def)

lemma sized_same:
  "same_formula c c' \<Longrightarrow> length (numtrue c') = length (numtrue c) \<Longrightarrow>
   length (w c') = length (w c) \<Longrightarrow> sized c' = sized c"
  by (simp add: sized_def same_formula_def)

lemma W5_lost_tracked:
  assumes "tracked c" and "i < nclauses c" and "1 \<le> numtrue c ! i"
  shows "tracked (W5_lost v i c)"
proof -
  let ?c' = "W5_lost v i c"
  from assms(1) have sz: "sized c" and fw: "fw_inv c" and un: "unsat_ok c"
    and nn: "\<forall>k < nclauses c. 0 \<le> numtrue c ! k"
    by (simp_all add: tracked_def)
  have il: "i < length (numtrue c)" "i < length (w c)" using sz assms(2) by (simp_all add: sized_def)
  have nc: "nclauses ?c' = nclauses c" using W5_lost_same [of c v i] by (simp add: same_formula_def)
  have nt: "numtrue ?c' ! k = (if k = i then numtrue c ! i - 1 else numtrue c ! k)" for k
    using il by (simp add: W5_lost_numtrue nth_list_update)
  show ?thesis
  proof (cases "numtrue c ! i = 1")
    case True
    with un assms(2) have wi: "w c ! i = None" by (auto simp: unsat_ok_def)
    have wf: "w ?c' = w (register_unsatisfied c i)" "f ?c' = f (register_unsatisfied c i)"
      using True il by (simp_all add: W5_lost_fw)
    have w': "w ?c' = (w c)[i := Some (length (f c))]"
      using wf register_unsatisfied_new [OF wi] by simp
    have "fw_inv (register_unsatisfied c i)" using fw assms(2) wi by (rule register_unsatisfied_fw_inv)
    then have 1: "fw_inv ?c'"
      using wf nc register_unsatisfied_same [of c i]
      by (simp add: fw_inv_def same_formula_def)
    have 2: "unsat_ok ?c'"
      unfolding unsat_ok_def nc using un il True by (auto simp: nt w' nth_list_update unsat_ok_def)
    have 3: "sized ?c'"
      using sz W5_lost_same [of c v i] by (simp add: sized_def same_formula_def W5_lost_numtrue w')
    have 4: "\<forall>k < nclauses ?c'. 0 \<le> numtrue ?c' ! k"
      unfolding nc using nn True by (simp add: nt)
    from 1 2 3 4 show ?thesis by (simp add: tracked_def)
  next
    case False
    with assms(3) have ge: "2 \<le> numtrue c ! i" by simp
    have wf: "w ?c' = w c" "f ?c' = f c"
      using ge il by (simp_all add: W5_lost_fw)
    have 1: "fw_inv ?c'" using fw wf nc by (simp add: fw_inv_def)
    have 2: "unsat_ok ?c'"
      unfolding unsat_ok_def nc using un ge by (auto simp: nt wf unsat_ok_def)
    have 3: "sized ?c'"
      using sz W5_lost_same [of c v i] by (simp add: sized_def same_formula_def W5_lost_numtrue wf)
    have 4: "\<forall>k < nclauses ?c'. 0 \<le> numtrue ?c' ! k"
      unfolding nc using nn ge by (simp add: nt)
    from 1 2 3 4 show ?thesis by (simp add: tracked_def)
  qed
qed

lemma W5_gained_tracked:
  assumes "tracked c" and "i < nclauses c"
  shows "tracked (W5_gained v neg i c)"
proof -
  let ?c' = "W5_gained v neg i c"
  from assms(1) have sz: "sized c" and fw: "fw_inv c" and un: "unsat_ok c"
    and nn: "\<forall>k < nclauses c. 0 \<le> numtrue c ! k"
    by (simp_all add: tracked_def)
  have il: "i < length (numtrue c)" "i < length (w c)" using sz assms(2) by (simp_all add: sized_def)
  have nc: "nclauses ?c' = nclauses c" using W5_gained_same [of c v neg i] by (simp add: same_formula_def)
  have nt: "numtrue ?c' ! k = (if k = i then numtrue c ! i + 1 else numtrue c ! k)" for k
    using il by (simp add: W5_gained_numtrue nth_list_update)
  have 4: "\<forall>k < nclauses ?c'. 0 \<le> numtrue ?c' ! k"
    unfolding nc using nn by (simp add: nt)
  show ?thesis
  proof (cases "numtrue c ! i = 0")
    case True
    with un assms(2) obtain p where wi: "w c ! i = Some p" by (auto simp: unsat_ok_def)
    have wf: "w ?c' = w (register_satisfied c i)" "f ?c' = f (register_satisfied c i)"
      using True il by (simp_all add: W5_gained_fw)
    note r = register_satisfied_fw_inv [OF fw assms(2) wi]
    have 1: "fw_inv ?c'"
      using r(1) wf nc register_satisfied_same [of c i]
      by (simp add: fw_inv_def same_formula_def)
    have lastn: "last (f c) < nclauses c \<and> w c ! last (f c) \<noteq> None"
    proof -
      from fw assms(2) wi have "p < length (f c)" by (simp add: fw_inv_def)
      then have "f c \<noteq> []" by auto
      then have "last (f c) = f c ! (length (f c) - 1)" by (simp add: last_conv_nth)
      moreover have "length (f c) - 1 < length (f c)" using \<open>f c \<noteq> []\<close> by simp
      ultimately show ?thesis using fw by (auto simp: fw_inv_def)
    qed
    have 2: "unsat_ok ?c'"
      unfolding unsat_ok_def nc
    proof (intro allI impI)
      fix k assume k: "k < nclauses c"
      show "(w ?c' ! k \<noteq> None) = (numtrue ?c' ! k = 0)"
      proof (cases "k = i")
        case True
        then show ?thesis using il \<open>numtrue c ! i = 0\<close> by (simp add: nt wf r(5))
      next
        case False
        note ki = this
        show ?thesis
        proof (cases "k = last (f c)")
          case True
          with lastn un k have "numtrue c ! k = 0" by (auto simp: unsat_ok_def)
          then show ?thesis using ki True il lastn sz by (simp add: nt wf r(5) sized_def)
        next
          case False
          then show ?thesis using ki un k by (simp add: nt wf r(5) unsat_ok_def)
        qed
      qed
    qed
    have 3: "sized ?c'"
      using sz W5_gained_same [of c v neg i]
      by (simp add: sized_def same_formula_def W5_gained_numtrue wf r(5))
    from 1 2 3 4 show ?thesis by (simp add: tracked_def)
  next
    case False
    with nn assms(2) have ge: "1 \<le> numtrue c ! i" by (metis add_0 linorder_not_less order_le_less zless_imp_add1_zle)
    have wf: "w ?c' = w c" "f ?c' = f c"
      using ge il by (simp_all add: W5_gained_fw)
    have 1: "fw_inv ?c'" using fw wf nc by (simp add: fw_inv_def)
    have 2: "unsat_ok ?c'"
      unfolding unsat_ok_def nc using un ge by (auto simp: nt wf unsat_ok_def)
    have 3: "sized ?c'"
      using sz W5_gained_same [of c v neg i] by (simp add: sized_def same_formula_def W5_gained_numtrue wf)
    from 1 2 3 4 show ?thesis by (simp add: tracked_def)
  qed
qed

lemma fold_W5_lost:
  assumes "tracked c" and "\<forall>i \<in> set is. i < nclauses c"
    and "\<forall>k < nclauses c. int (count_list is k) \<le> numtrue c ! k"
  shows "tracked (fold (W5_lost v) is c) \<and> same_formula c (fold (W5_lost v) is c) \<and>
         (\<forall>k < nclauses c. numtrue (fold (W5_lost v) is c) ! k = numtrue c ! k - int (count_list is k))"
  using assms
proof (induction "is" arbitrary: c)
  case Nil
  then show ?case by (simp add: same_formula_refl)
next
  case (Cons i "is")
  let ?c1 = "W5_lost v i c"
  have i: "i < nclauses c" using Cons.prems(2) by simp
  have sz: "sized c" using Cons.prems(1) by (simp add: tracked_def)
  have il: "i < length (numtrue c)" using sz i by (simp add: sized_def)
  have "int (count_list (i # is) i) \<le> numtrue c ! i" using Cons.prems(3) i by blast
  then have ge: "1 \<le> numtrue c ! i" by simp
  have t1: "tracked ?c1" using Cons.prems(1) i ge by (rule W5_lost_tracked)
  have s1: "same_formula c ?c1" by (rule W5_lost_same)
  then have nc: "nclauses ?c1 = nclauses c" by (simp add: same_formula_def)
  have nt: "numtrue ?c1 ! k = (if k = i then numtrue c ! i - 1 else numtrue c ! k)" for k
    using il by (simp add: W5_lost_numtrue nth_list_update)
  have p2: "\<forall>j \<in> set is. j < nclauses ?c1" using Cons.prems(2) nc by simp
  have p3: "\<forall>k < nclauses ?c1. int (count_list is k) \<le> numtrue ?c1 ! k"
    unfolding nc
  proof (intro allI impI)
    fix k assume "k < nclauses c"
    with Cons.prems(3) have "int (count_list (i # is) k) \<le> numtrue c ! k" by blast
    then show "int (count_list is k) \<le> numtrue ?c1 ! k" by (simp add: nt split: if_splits)
  qed
  from Cons.IH [OF t1 p2 p3]
  have IH: "tracked (fold (W5_lost v) is ?c1)" "same_formula ?c1 (fold (W5_lost v) is ?c1)"
    "\<forall>k < nclauses c. numtrue (fold (W5_lost v) is ?c1) ! k = numtrue ?c1 ! k - int (count_list is k)"
    unfolding nc by blast+
  have "\<forall>k < nclauses c. numtrue (fold (W5_lost v) is ?c1) ! k =
          numtrue c ! k - int (count_list (i # is) k)"
    using IH(3) by (simp add: nt)
  with IH(1) same_formula_trans [OF s1 IH(2)] show ?case by simp
qed

lemma fold_W5_gained:
  assumes "tracked c" and "\<forall>i \<in> set is. i < nclauses c"
  shows "tracked (fold (W5_gained v neg) is c) \<and> same_formula c (fold (W5_gained v neg) is c) \<and>
         (\<forall>k < nclauses c. numtrue (fold (W5_gained v neg) is c) ! k =
                             numtrue c ! k + int (count_list is k))"
  using assms
proof (induction "is" arbitrary: c)
  case Nil
  then show ?case by (simp add: same_formula_refl)
next
  case (Cons i "is")
  let ?c1 = "W5_gained v neg i c"
  have i: "i < nclauses c" using Cons.prems(2) by simp
  have sz: "sized c" using Cons.prems(1) by (simp add: tracked_def)
  have il: "i < length (numtrue c)" using sz i by (simp add: sized_def)
  have t1: "tracked ?c1" using Cons.prems(1) i by (rule W5_gained_tracked)
  have s1: "same_formula c ?c1" by (rule W5_gained_same)
  then have nc: "nclauses ?c1 = nclauses c" by (simp add: same_formula_def)
  have nt: "numtrue ?c1 ! k = (if k = i then numtrue c ! i + 1 else numtrue c ! k)" for k
    using il by (simp add: W5_gained_numtrue nth_list_update)
  have p2: "\<forall>j \<in> set is. j < nclauses ?c1" using Cons.prems(2) nc by simp
  from Cons.IH [OF t1 p2]
  have IH: "tracked (fold (W5_gained v neg) is ?c1)"
    "same_formula ?c1 (fold (W5_gained v neg) is ?c1)"
    "\<forall>k < nclauses c. numtrue (fold (W5_gained v neg) is ?c1) ! k =
        numtrue ?c1 ! k + int (count_list is k)"
    unfolding nc by blast+
  have "\<forall>k < nclauses c. numtrue (fold (W5_gained v neg) is ?c1) ! k =
          numtrue c ! k + int (count_list (i # is) k)"
    using IH(3) by (simp add: nt)
  with IH(1) same_formula_trans [OF s1 IH(2)] show ?case by simp
qed

text \<open>Flipping one variable: what it does to the truth of the literals.\<close>

lemma var_eq_cases: "l \<noteq> 0 \<Longrightarrow> p \<noteq> 0 \<Longrightarrow> var l = var p \<Longrightarrow> l = p \<or> l = - p"
  by (auto simp: var_def)

lemma count_true_flip:
  fixes c :: Cnf and pos :: int
  assumes len: "var pos < length (val c)" and p0: "pos \<noteq> 0" and pt: "is_true c pos"
    and c1: "c1 = c\<lparr>val := (val c)[var pos := \<not> val c ! var pos]\<rparr>"
    and nz: "\<forall>l \<in> set ls. l \<noteq> 0"
  shows "int (length (filter (is_true c1) ls)) =
         int (length (filter (is_true c) ls)) - int (count_list ls pos) + int (count_list ls (- pos))"
  using nz
proof (induction ls)
  case Nil
  then show ?case by simp
next
  case (Cons l ls)
  have t: "is_true c1 l = (if l = pos then False else if l = - pos then True else is_true c l)"
  proof (cases "var l = var pos")
    case True
    with Cons.prems p0 have "l = pos \<or> l = - pos" by (intro var_eq_cases) auto
    then show ?thesis using len p0 pt by (auto simp: is_true_def c1 var_def Let_def)
  next
    case False
    then have "l \<noteq> pos" "l \<noteq> - pos" by (auto simp: var_def)
    then show ?thesis using False by (simp add: is_true_def c1 Let_def)
  qed
  have n: "\<not> is_true c (- pos)" using pt p0 by (auto simp: is_true_def var_def Let_def)
  have "pos \<noteq> - pos" using p0 by simp
  with Cons t n pt show ?case by auto
qed

lemma count_list_le_filter: "P x \<Longrightarrow> count_list ls x \<le> length (filter P ls)"
  by (induction ls) auto

subsection \<open>W5 as a whole, and a pass of the loop\<close>

definition W_inv :: "Cnf \<Rightarrow> bool" where
  "W_inv c \<longleftrightarrow> formula_ok c \<and> sized c \<and> index_ok c \<and> numtrue_ok c \<and> fw_inv c \<and> unsat_ok c"

lemma formula_ok_same: "same_formula c c' \<Longrightarrow> formula_ok c' = formula_ok c"
  by (simp add: formula_ok_def same_formula_lits) (simp add: same_formula_def clause_end_def)

lemma index_ok_same: "same_formula c c' \<Longrightarrow> index_ok c' = index_ok c"
  by (simp add: index_ok_def same_formula_lits) (simp add: same_formula_def)

lemma formula_ok_val [simp]: "formula_ok (c\<lparr>val := x\<rparr>) = formula_ok c"
  by (simp add: formula_ok_def clause_lits_def clause_begin_def clause_end_def)

lemma index_ok_val [simp]: "index_ok (c\<lparr>val := x\<rparr>) = index_ok c"
  by (simp add: index_ok_def clause_lits_def clause_begin_def clause_end_def)

lemma W_inv_tracked: "W_inv c \<Longrightarrow> tracked c"
  by (simp add: W_inv_def tracked_def numtrue_ok_def)

lemma index_ok_bound: "index_ok c \<Longrightarrow> i \<in> set (invclause c l) \<Longrightarrow> i < nclauses c"
proof (rule ccontr)
  assume a: "index_ok c" "i \<in> set (invclause c l)" "\<not> i < nclauses c"
  then have "count_list (invclause c l) i = 0" by (simp add: index_ok_def)
  with a(2) show False by (simp add: count_list_0_iff)
qed

lemma pos_is_true:
  assumes "choice \<noteq> 0" and "pos = (if val c ! var choice = (choice > 0) then choice else - choice)"
  shows "is_true c pos \<and> var pos = var choice \<and> pos \<noteq> 0"
  using assms by (auto simp: is_true_def var_def Let_def)

lemma W5_W_inv:
  assumes inv: "W_inv c" and K: "K < nclauses c" and ch: "choice \<in> set (clause_lits c K)"
  shows "W_inv (W5 c choice) \<and> clauses (W5 c choice) = clauses c \<and> start (W5 c choice) = start c \<and>
         nvars (W5 c choice) = nvars c \<and> nclauses (W5 c choice) = nclauses c \<and>
         val (W5 c choice) = (val c)[var choice := \<not> val c ! var choice]"
proof -
  define pos where "pos = (if val c ! var choice = (choice > 0) then choice else - choice)"
  define c1 where "c1 = c\<lparr>val := (val c)[var choice := \<not> val c ! var choice]\<rparr>"
  define c2 where "c2 = fold (W5_lost (var choice)) (invclause c1 pos) c1"
  define c3 where "c3 = fold (W5_gained (var choice) (- pos)) (invclause c2 (- pos)) c2"
  have W5: "W5 c choice = c3"
    by (simp add: W5_def Let_def c3_def c2_def c1_def pos_def)
  from inv have fo: "formula_ok c" and sz: "sized c" and io: "index_ok c" and no: "numtrue_ok c"
    and fw: "fw_inv c" and un: "unsat_ok c"
    by (simp_all add: W_inv_def)
  from fo K ch have ch0: "choice \<noteq> 0" and chv: "var choice \<le> nvars c"
    by (auto simp: formula_ok_def)
  from pos_is_true [OF ch0 pos_def] have pt: "is_true c pos" and vp: "var pos = var choice"
    and p0: "pos \<noteq> 0" by simp_all
  have len: "var pos < length (val c)" using chv sz by (simp add: vp sized_def)
  have c1': "c1 = c\<lparr>val := (val c)[var pos := \<not> val c ! var pos]\<rparr>" by (simp add: c1_def vp)
  have lits1: "clause_lits c1 k = clause_lits c k" for k
    by (simp add: c1_def clause_lits_def clause_begin_def clause_end_def)
  have t1: "tracked c1"
    using W_inv_tracked [OF inv]
    by (simp add: tracked_def c1_def sized_def fw_inv_def unsat_ok_def)
  have nc1: "nclauses c1 = nclauses c" and iv1: "invclause c1 = invclause c"
    and nt1: "numtrue c1 = numtrue c"
    by (simp_all add: c1_def)
  have b1: "\<forall>i \<in> set (invclause c1 pos). i < nclauses c1"
    using io by (auto simp: iv1 nc1 dest: index_ok_bound)
  have le: "\<forall>k < nclauses c1. int (count_list (invclause c1 pos) k) \<le> numtrue c1 ! k"
  proof (intro allI impI)
    fix k assume k: "k < nclauses c1"
    then have "count_list (invclause c1 pos) k = count_list (clause_lits c k) pos"
      using io by (simp add: iv1 nc1 index_ok_def)
    also have "\<dots> \<le> count_true c k"
      unfolding count_true_def using pt by (rule count_list_le_filter)
    finally show "int (count_list (invclause c1 pos) k) \<le> numtrue c1 ! k"
      using no k by (simp add: nt1 nc1 numtrue_ok_def)
  qed
  from fold_W5_lost [OF t1 b1 le, of "var choice"]
  have t2: "tracked c2" and s12: "same_formula c1 c2"
    and n2: "\<forall>k < nclauses c. numtrue c2 ! k = numtrue c ! k - int (count_list (invclause c pos) k)"
    by (simp_all add: c2_def nc1 nt1 iv1)
  have nc2: "nclauses c2 = nclauses c" and iv2: "invclause c2 = invclause c"
    using s12 by (simp_all add: same_formula_def nc1 iv1)
  have b2: "\<forall>i \<in> set (invclause c2 (- pos)). i < nclauses c2"
    using io by (auto simp: iv2 nc2 dest: index_ok_bound)
  from fold_W5_gained [OF t2 b2, of "var choice" "- pos"]
  have t3: "tracked c3" and s23: "same_formula c2 c3"
    and n3: "\<forall>k < nclauses c. numtrue c3 ! k = numtrue c2 ! k + int (count_list (invclause c (- pos)) k)"
    by (simp_all add: c3_def nc2 iv2)
  have s13: "same_formula c1 c3" using s12 s23 by (rule same_formula_trans)
  have nc3: "nclauses c3 = nclauses c" using s13 by (simp add: same_formula_def nc1)
  have lits3: "clause_lits c3 k = clause_lits c k" for k
    using same_formula_lits [OF s13] by (simp add: lits1)
  have fo3: "formula_ok c3"
    using fo formula_ok_same [OF s13] by (simp add: c1_def)
  have io3: "index_ok c3"
    using io index_ok_same [OF s13] by (simp add: c1_def)
  have no3: "numtrue_ok c3"
    unfolding numtrue_ok_def nc3
  proof (intro allI impI)
    fix k assume k: "k < nclauses c"
    have nz: "\<forall>l \<in> set (clause_lits c k). l \<noteq> 0" using fo k by (auto simp: formula_ok_def)
    have "int (count_true c3 k) = int (count_true c1 k)"
      using same_formula_count_true [OF s13] by simp
    also have "\<dots> = int (count_true c k) - int (count_list (clause_lits c k) pos)
                     + int (count_list (clause_lits c k) (- pos))"
      unfolding count_true_def lits1 using len p0 pt c1' nz by (rule count_true_flip)
    also have "\<dots> = numtrue c3 ! k"
      using n3 n2 k io no by (simp add: index_ok_def numtrue_ok_def)
    finally show "numtrue c3 ! k = int (count_true c3 k)" by simp
  qed
  have "W_inv c3"
    using fo3 io3 no3 t3 by (simp add: W_inv_def tracked_def)
  moreover have "clauses c3 = clauses c" "start c3 = start c" "nvars c3 = nvars c"
    "val c3 = (val c)[var choice := \<not> val c ! var choice]"
    using s13 by (simp_all add: same_formula_def c1_def)
  ultimately show ?thesis using nc3 by (simp add: W5)
qed

lemma W3_loop_bound:
  assumes "W3_loop divisor n g = Some (q, g')"
  shows "q < n"
proof -
  have "fst (q, g') < n"
  proof (rule W3_loop.raw_induct [where P = "\<lambda>d m h y. fst y < m", OF _ assms])
    fix loop d m h y
    assume IH: "\<And>d m h y. loop d m h = Some y \<Longrightarrow> fst y < m"
      and body: "(let (r, g') = rand h; q = r div d
                  in if m \<le> q then loop d m g' else Some (q, g')) = Some y"
    show "fst y < m"
    proof (cases "m \<le> h 0 div d")
      case True
      with body have "loop d m (\<lambda>i. h (Suc i)) = Some y" by (simp add: rand_def)
      then show ?thesis by (rule IH)
    next
      case False
      with body show ?thesis by (auto simp: rand_def)
    qed
  qed
  then show ?thesis by simp
qed

lemma W3_bound: "W3 E c g = Some (Inr (q, g')) \<Longrightarrow> q < length (f c)"
  by (auto simp: W3_def Let_def split: if_splits dest: W3_loop_bound)

text \<open>One step of the scan of W4, with its three decisions named.\<close>

definition W4_min :: "int list \<Rightarrow> lit_t \<Rightarrow> int \<Rightarrow> int" where
  "W4_min cst l mc = (if cst ! var l < mc then cst ! var l else mc)"

definition W4_k :: "bool \<Rightarrow> int list \<Rightarrow> lit_t \<Rightarrow> int \<Rightarrow> nat \<Rightarrow> nat" where
  "W4_k all cst l mc k =
     (if cst ! var l < mc then (if \<not> all \<or> cst ! var l = 0 then 1 else k) else k)"

definition W4_cand :: "bool \<Rightarrow> int list \<Rightarrow> lit_t \<Rightarrow> int \<Rightarrow> bool" where
  "W4_cand all cst l mc \<longleftrightarrow> (all \<and> W4_min cst l mc > 0) \<or> cst ! var l = W4_min cst l mc"

lemma W4_scan_Cons:
  "W4_scan upd all cst (l # ls) mc k ch =
     (if W4_cand all cst l mc
      then W4_scan upd all cst ls (W4_min cst l mc) (W4_k all cst l mc k + 1)
             (upd (W4_k all cst l mc k) l ch)
      else W4_scan upd all cst ls (W4_min cst l mc) (W4_k all cst l mc k) ch)"
  by (simp add: W4_cand_def W4_min_def W4_k_def Let_def)

lemma W4_scan_choice:
  "fst (W4_scan (W4_choice E) all cst ls mc k (ch, g)) = ch \<or>
   (\<exists>l \<in> set ls. fst (W4_scan (W4_choice E) all cst ls mc k (ch, g)) = Some l)"
proof (induction ls arbitrary: mc k ch g)
  case Nil
  then show ?case by simp
next
  case (Cons l ls)
  let ?k1 = "W4_k all cst l mc k"
  obtain ch' g' where u: "W4_choice E ?k1 l (ch, g) = (ch', g')"
    by (cases "W4_choice E ?k1 l (ch, g)")
  then have ch': "ch' = ch \<or> ch' = Some l"
    by (auto simp: W4_choice_def Let_def split: prod.splits if_splits)
  show ?case
  proof (cases "W4_cand all cst l mc")
    case True
    with Cons.IH [of "W4_min cst l mc" "?k1 + 1" ch' g'] ch' show ?thesis
      by (auto simp: W4_scan_Cons u simp del: W4_scan.simps)
  next
    case False
    with Cons.IH [of "W4_min cst l mc" ?k1 ch g] show ?thesis
      by (auto simp: W4_scan_Cons simp del: W4_scan.simps)
  qed
qed

lemma W4_choice_in_clause:
  "W4 E c q g = (Some choice, g') \<Longrightarrow> choice \<in> set (clause_lits c (f c ! q))"
proof -
  assume a: "W4 E c q g = (Some choice, g')"
  obtain all g1 where fl: "flip E (PARAM_non_greedy_choice E) g = (all, g1)"
    by (cases "flip E (PARAM_non_greedy_choice E) g")
  from a fl have "fst (W4_scan (W4_choice E) all (cost c) (clause_lits c (f c ! q)) (lit_max E) 1 (None, g1))
      = Some choice"
    by (simp add: W4_def)
  with W4_scan_choice [of E all "cost c" "clause_lits c (f c ! q)" "lit_max E" 1 None g1]
  show ?thesis by auto
qed

lemma solve_body_W_inv:
  assumes "W_inv c" and "solve_body E c g = Some (Inr (choice, c', g'))"
  shows "W_inv c' \<and> clauses c' = clauses c \<and> start c' = start c \<and>
         nvars c' = nvars c \<and> nclauses c' = nclauses c \<and> c' = W5 c choice \<and>
         (\<exists>q < length (f c). choice \<in> set (clause_lits c (f c ! q)))"
proof -
  from assms(2) obtain q g1 where w3: "W3 E c g = Some (Inr (q, g1))"
    and w4: "W4 E c q g1 = (Some choice, g')" and c': "c' = W5 c choice"
    by (auto simp: solve_body_def split: option.splits sum.splits prod.splits)
  from w3 have q: "q < length (f c)" by (rule W3_bound)
  from assms(1) have "fw_inv c" by (simp add: W_inv_def)
  with q have K: "f c ! q < nclauses c" by (simp add: fw_inv_def)
  from w4 have ch: "choice \<in> set (clause_lits c (f c ! q))" by (rule W4_choice_in_clause)
  from W5_W_inv [OF assms(1) K ch] q ch show ?thesis by (auto simp: c')
qed

lemma solve_iter_W_inv:
  assumes "W_inv c" and "solve_iter E n c g = Some (flips, c', g')"
  shows "W_inv c' \<and> clauses c' = clauses c \<and> start c' = start c \<and>
         nvars c' = nvars c \<and> nclauses c' = nclauses c"
  using assms
proof (induction n arbitrary: c g flips)
  case 0
  then show ?case by simp
next
  case (Suc n)
  from Suc.prems(2) obtain choice c1 g1 fl where
    b: "solve_body E c g = Some (Inr (choice, c1, g1))" and
    r: "solve_iter E n c1 g1 = Some (fl, c', g')"
    by (auto split: if_splits option.splits sum.splits prod.splits)
  from solve_body_W_inv [OF Suc.prems(1) b]
  have a: "W_inv c1" "clauses c1 = clauses c" "start c1 = start c" "nvars c1 = nvars c"
    "nclauses c1 = nclauses c"
    by blast+
  from Suc.IH [OF a(1) r] show ?case by (simp add: a)
qed

lemma solve_loop_W_inv:
  assumes "solve_loop E c g = Some (Inr (b, c', g'))" and "W_inv c"
  shows "b \<and> f c' = [] \<and> W_inv c' \<and> clauses c' = clauses c \<and> start c' = start c \<and>
         nvars c' = nvars c \<and> nclauses c' = nclauses c"
proof -
  let ?P = "\<lambda>(E::env) c (g::rng) r. W_inv c \<longrightarrow>
       (case r of Inl (e::error) \<Rightarrow> True | Inr (b, c', g'::rng) \<Rightarrow>
          b \<and> f c' = [] \<and> W_inv c' \<and> clauses c' = clauses c \<and> start c' = start c \<and>
          nvars c' = nvars c \<and> nclauses c' = nclauses c)"
  have "?P E c g (Inr (b, c', g'))"
  proof (rule solve_loop.raw_induct [where P = ?P, OF _ assms(1)])
    fix loop E c g r
    assume IH: "\<And>E c g r. loop E c g = Some r \<Longrightarrow> ?P E c g r"
      and body: "(if f c = [] then Some (Inr (True, c, g))
                  else case solve_body E c g of
                         None \<Rightarrow> None
                       | Some (Inl e) \<Rightarrow> Some (Inl e)
                       | Some (Inr (choice, c', g')) \<Rightarrow> loop E c' g') = Some r"
    show "?P E c g r"
    proof
      assume inv: "W_inv c"
      show "case r of Inl e \<Rightarrow> True | Inr (b, c', g') \<Rightarrow>
          b \<and> f c' = [] \<and> W_inv c' \<and> clauses c' = clauses c \<and> start c' = start c \<and>
          nvars c' = nvars c \<and> nclauses c' = nclauses c"
      proof (cases "f c = []")
        case True
        with body inv show ?thesis by auto
      next
        case False
        show ?thesis
        proof (cases r)
          case (Inl e)
          then show ?thesis by simp
        next
          case (Inr t)
          with body False obtain choice c1 g1 where
            b: "solve_body E c g = Some (Inr (choice, c1, g1))" and l: "loop E c1 g1 = Some r"
            by (auto split: option.splits sum.splits prod.splits)
          from solve_body_W_inv [OF inv b]
          have a: "W_inv c1" "clauses c1 = clauses c" "start c1 = start c" "nvars c1 = nvars c"
            "nclauses c1 = nclauses c"
            by blast+
          from IH [OF l] a(1) show ?thesis
            by (auto simp: Inr a split: prod.splits)
        qed
      qed
    qed
  qed
  with assms(2) show ?thesis by simp
qed

text \<open>
  \<^const>\<open>solve_iter\<close> observes exactly the boundaries of \<^const>\<open>solve_loop\<close>: a run that
  returns has passed through finitely many of them and stops at the first one where
  \<^const>\<open>f\<close> is empty, and conversely.
\<close>

lemma solve_loop_iter:
  assumes "solve_loop E c g = Some (Inr (b, c', g'))"
  shows "\<exists>n flips. solve_iter E n c g = Some (flips, c', g') \<and> f c' = [] \<and> b"
proof -
  let ?P = "\<lambda>(E::env) c (g::rng) r.
       (case r of Inl (e::error) \<Rightarrow> True | Inr (b, c', g'::rng) \<Rightarrow>
          \<exists>n flips. solve_iter E n c g = Some (flips, c', g') \<and> f c' = [] \<and> b)"
  have "?P E c g (Inr (b, c', g'))"
  proof (rule solve_loop.raw_induct [where P = ?P, OF _ assms])
    fix loop E c g r
    assume IH: "\<And>E c g r. loop E c g = Some r \<Longrightarrow> ?P E c g r"
      and body: "(if f c = [] then Some (Inr (True, c, g))
                  else case solve_body E c g of
                         None \<Rightarrow> None
                       | Some (Inl e) \<Rightarrow> Some (Inl e)
                       | Some (Inr (choice, c', g')) \<Rightarrow> loop E c' g') = Some r"
    show "?P E c g r"
    proof (cases r)
      case (Inl e)
      then show ?thesis by simp
    next
      case (Inr t)
      obtain b c' g' where t: "t = (b, c', g')" by (cases t)
      have "\<exists>n flips. solve_iter E n c g = Some (flips, c', g') \<and> f c' = [] \<and> b"
      proof (cases "f c = []")
        case True
        with body Inr t have "c' = c" "g' = g" b by simp_all
        with True have "solve_iter E 0 c g = Some ([], c', g') \<and> f c' = [] \<and> b" by simp
        then show ?thesis by blast
      next
        case False
        with body Inr obtain choice c1 g1 where
          sb: "solve_body E c g = Some (Inr (choice, c1, g1))" and l: "loop E c1 g1 = Some r"
          by (auto split: option.splits sum.splits prod.splits)
        from IH [OF l] Inr t obtain n flips where
          "solve_iter E n c1 g1 = Some (flips, c', g')" "f c' = []" b
          by auto
        with False sb have "solve_iter E (Suc n) c g = Some (choice # flips, c', g') \<and> f c' = [] \<and> b"
          by simp
        then show ?thesis by blast
      qed
      with Inr t show ?thesis by simp
    qed
  qed
  then show ?thesis by simp
qed

lemma solve_iter_loop:
  assumes "solve_iter E n c g = Some (flips, c', g')" and "f c' = []"
  shows "solve_loop E c g = Some (Inr (True, c', g'))"
  using assms(1)
proof (induction n arbitrary: c g flips)
  case 0
  with assms(2) show ?case by (subst solve_loop.simps) simp
next
  case (Suc n)
  from Suc.prems obtain choice c1 g1 fl where
    ne: "f c \<noteq> []" and sb: "solve_body E c g = Some (Inr (choice, c1, g1))"
    and r: "solve_iter E n c1 g1 = Some (fl, c', g')"
    by (auto split: if_splits option.splits sum.splits prod.splits)
  from Suc.IH [OF r] ne sb show ?case by (subst solve_loop.simps) simp
qed

subsection \<open>W1 establishes the invariants\<close>

definition sole_true :: "Cnf \<Rightarrow> clause_t \<Rightarrow> nat \<Rightarrow> bool" where
  "sole_true c k v \<longleftrightarrow>
     numtrue c ! k = 1 \<and> list_ex (\<lambda>l. is_true c l \<and> var l = v) (clause_lits c k)"

definition cost_ok :: "Cnf \<Rightarrow> bool" where
  "cost_ok c \<longleftrightarrow>
     (\<forall>v \<le> nvars c. cost c ! v = int (length (filter (\<lambda>k. sole_true c k v) [0 ..< nclauses c])))"

definition contrib :: "Cnf \<Rightarrow> clause_t \<Rightarrow> nat \<Rightarrow> int" where
  "contrib c k v =
     (if count_true c k = 1 \<and> (\<exists>l \<in> set (clause_lits c k). is_true c l \<and> var l = v) then 1 else 0)"

lemma length_filter_upt_sum:
  "int (length (filter P [0 ..< n])) = (\<Sum>k < n. if P k then 1 else 0)"
  by (induction n) auto

lemma cost_ok_contrib:
  assumes "numtrue_ok c"
  shows "cost_ok c \<longleftrightarrow> (\<forall>v \<le> nvars c. cost c ! v = (\<Sum>k < nclauses c. contrib c k v))"
proof -
  have "(\<Sum>k < nclauses c. if sole_true c k v then 1 else 0) = (\<Sum>k < nclauses c. contrib c k v)" for v
    using assms
    by (intro sum.cong) (auto simp: sole_true_def contrib_def numtrue_ok_def list_ex_iff)
  then show ?thesis by (simp add: cost_ok_def length_filter_upt_sum)
qed

definition W1_frame :: "Cnf \<Rightarrow> Cnf \<Rightarrow> bool" where
  "W1_frame c c' \<longleftrightarrow>
     clauses c' = clauses c \<and> start c' = start c \<and> val c' = val c \<and> cost c' = cost c \<and>
     f c' = f c \<and> w c' = w c \<and> nvars c' = nvars c \<and> nclauses c' = nclauses c"

lemma is_true_val: "val c' = val c \<Longrightarrow> is_true c' = is_true c"
  by (intro ext) (simp add: is_true_def)

lemma fold_W1_lit:
  assumes "i < length (numtrue c)"
  shows "case fold (W1_lit i) js (c, t0) of (c', t') \<Rightarrow>
           W1_frame c c' \<and>
           (\<forall>l. invclause c' l =
                invclause c l @ replicate (count_list (map (\<lambda>j. clauses c ! j) js) l) i) \<and>
           numtrue c' = (numtrue c)[i := numtrue c ! i +
                int (length (filter (is_true c) (map (\<lambda>j. clauses c ! j) js)))] \<and>
           t' = (if filter (is_true c) (map (\<lambda>j. clauses c ! j) js) = [] then t0
                  else Some (var (last (filter (is_true c) (map (\<lambda>j. clauses c ! j) js)))))"
  using assms
proof (induction js arbitrary: c t0)
  case Nil
  then show ?case by (simp add: W1_frame_def)
next
  case (Cons j js)
  define l where "l = clauses c ! j"
  define c1 where "c1 = c\<lparr>invclause := (invclause c)(l := invclause c l @ [i])\<rparr>"
  define c2 where "c2 = (if is_true c l then c1\<lparr>numtrue := (numtrue c1)[i := numtrue c1 ! i + 1]\<rparr> else c1)"
  define tn where "tn = (if is_true c l then Some (var l) else t0)"
  have t1: "is_true c1 = is_true c" by (rule is_true_val) (simp add: c1_def)
  have step: "W1_lit i j (c, t0) = (c2, tn)"
    by (simp add: W1_lit_def Let_def l_def [symmetric] c1_def [symmetric] t1 c2_def tn_def)
  have fr: "W1_frame c c2" by (simp add: W1_frame_def c2_def c1_def)
  have t2: "is_true c2 = is_true c" by (rule is_true_val) (simp add: c2_def c1_def)
  have cl2: "clauses c2 = clauses c" by (simp add: c2_def c1_def)
  have len2: "i < length (numtrue c2)" using Cons.prems by (simp add: c2_def c1_def)
  have inv2: "invclause c2 x = invclause c x @ (if x = l then [i] else [])" for x
    by (simp add: c2_def c1_def)
  have nt2: "numtrue c2 = (numtrue c)[i := numtrue c ! i + (if is_true c l then 1 else 0)]"
    using Cons.prems by (simp add: c2_def c1_def)
  obtain c' t' where r: "fold (W1_lit i) js (c2, tn) = (c', t')"
    by (cases "fold (W1_lit i) js (c2, tn)")
  from Cons.IH [OF len2, of tn] r
  have IH: "W1_frame c2 c'"
    "\<forall>x. invclause c' x = invclause c2 x @ replicate (count_list (map (\<lambda>j. clauses c ! j) js) x) i"
    "numtrue c' = (numtrue c2)[i := numtrue c2 ! i +
        int (length (filter (is_true c) (map (\<lambda>j. clauses c ! j) js)))]"
    "t' = (if filter (is_true c) (map (\<lambda>j. clauses c ! j) js) = [] then tn
            else Some (var (last (filter (is_true c) (map (\<lambda>j. clauses c ! j) js)))))"
    by (simp_all add: t2 cl2)
  have a: "W1_frame c c'" using fr IH(1) by (simp add: W1_frame_def)
  have b: "\<forall>x. invclause c' x =
      invclause c x @ replicate (count_list (map (\<lambda>j. clauses c ! j) (j # js)) x) i"
    using IH(2) by (simp add: inv2 l_def replicate_app_Cons_same)
  have c: "numtrue c' = (numtrue c)[i := numtrue c ! i +
      int (length (filter (is_true c) (map (\<lambda>j. clauses c ! j) (j # js))))]"
    using IH(3) Cons.prems by (simp add: nt2 l_def add.assoc)
  have d: "t' = (if filter (is_true c) (map (\<lambda>j. clauses c ! j) (j # js)) = [] then t0
      else Some (var (last (filter (is_true c) (map (\<lambda>j. clauses c ! j) (j # js))))))"
    using IH(4) by (simp add: tn_def l_def)
  show ?case using a b c d by (simp add: step r)
qed

definition W1_inv :: "nat \<Rightarrow> Cnf \<Rightarrow> bool" where
  "W1_inv m c \<longleftrightarrow>
     formula_ok c \<and> sized c \<and> fw_inv c \<and>
     (\<forall>l k. count_list (invclause c l) k = (if k < m then count_list (clause_lits c k) l else 0)) \<and>
     (\<forall>k < nclauses c. numtrue c ! k = (if k < m then int (count_true c k) else 0)) \<and>
     (\<forall>k < nclauses c. if k < m then (w c ! k \<noteq> None) = (numtrue c ! k = 0) else w c ! k = None) \<and>
     (\<forall>v \<le> nvars c. cost c ! v = (\<Sum>k < m. contrib c k v))"

definition same_input :: "Cnf \<Rightarrow> Cnf \<Rightarrow> bool" where
  "same_input c c' \<longleftrightarrow>
     clauses c' = clauses c \<and> start c' = start c \<and> val c' = val c \<and>
     nvars c' = nvars c \<and> nclauses c' = nclauses c"

lemma same_input_lits: "same_input c c' \<Longrightarrow> clause_lits c' k = clause_lits c k"
  by (simp add: same_input_def clause_lits_def clause_begin_def clause_end_def)

lemma same_input_is_true: "same_input c c' \<Longrightarrow> is_true c' = is_true c"
  by (rule is_true_val) (simp add: same_input_def)

lemma same_input_count_true: "same_input c c' \<Longrightarrow> count_true c' k = count_true c k"
  by (simp add: count_true_def same_input_lits same_input_is_true)

lemma same_input_contrib: "same_input c c' \<Longrightarrow> contrib c' k v = contrib c k v"
  by (simp add: contrib_def same_input_lits same_input_is_true same_input_count_true)

lemma same_input_formula_ok: "same_input c c' \<Longrightarrow> formula_ok c' = formula_ok c"
  by (simp add: formula_ok_def same_input_lits) (simp add: same_input_def clause_end_def)

lemma count_list_replicate: "count_list (replicate n i) k = (if k = i then n else 0)"
  by (induction n) auto

lemma filter_single:
  assumes "length (filter P xs) = 1"
  shows "(\<exists>x \<in> set xs. P x \<and> h x = u) \<longleftrightarrow> h (last (filter P xs)) = u"
proof -
  from assms obtain t where t: "filter P xs = [t]"
    by (cases "filter P xs") auto
  then have s: "set (filter P xs) = {t}" by simp
  have mem: "t \<in> set xs" "P t" using s by auto
  have uniq: "x = t" if "x \<in> set xs" "P x" for x
  proof -
    from that have "x \<in> set (filter P xs)" by simp
    then show ?thesis by (simp only: s singletonD)
  qed
  have "(\<exists>x \<in> set xs. P x \<and> h x = u) \<longleftrightarrow> h t = u"
  proof
    assume "\<exists>x \<in> set xs. P x \<and> h x = u"
    then obtain x where "x \<in> set xs" "P x" "h x = u" by blast
    with uniq [of x] show "h t = u" by simp
  next
    assume "h t = u"
    with mem show "\<exists>x \<in> set xs. P x \<and> h x = u" by blast
  qed
  then show ?thesis by (simp add: t)
qed

lemma W1_clause_step:
  assumes inv: "W1_inv m c" and m: "m < nclauses c"
  shows "W1_inv (Suc m) (W1_clause m c) \<and> same_input c (W1_clause m c)"
proof -
  define lits where "lits = clause_lits c m"
  from inv have fo: "formula_ok c" and sz: "sized c" and fw: "fw_inv c"
    and ix: "\<forall>l k. count_list (invclause c l) k = (if k < m then count_list (clause_lits c k) l else 0)"
    and nt: "\<forall>k < nclauses c. numtrue c ! k = (if k < m then int (count_true c k) else 0)"
    and wn: "\<forall>k < nclauses c. if k < m then (w c ! k \<noteq> None) = (numtrue c ! k = 0) else w c ! k = None"
    and co: "\<forall>v \<le> nvars c. cost c ! v = (\<Sum>k < m. contrib c k v)"
    unfolding W1_inv_def by blast+
  have ml: "m < length (numtrue c)" "m < length (w c)" using sz m by (simp_all add: sized_def)
  obtain c1 t' where r: "fold (W1_lit m) [clause_begin c m ..< clause_end c m] (c, None) = (c1, t')"
    by (cases "fold (W1_lit m) [clause_begin c m ..< clause_end c m] (c, None)")
  have lits: "map (\<lambda>j. clauses c ! j) [clause_begin c m ..< clause_end c m] = lits"
    by (simp add: lits_def clause_lits_def)
  have ct: "int (length (filter (is_true c) lits)) = int (count_true c m)"
    by (simp add: count_true_def lits_def)
  have nm0: "numtrue c ! m = 0" using nt m by simp
  from fold_W1_lit [OF ml(1), of "[clause_begin c m ..< clause_end c m]" None] r
  have fr: "W1_frame c c1"
    and iv1: "\<forall>l. invclause c1 l = invclause c l @ replicate (count_list lits l) m"
    and nt1: "numtrue c1 = (numtrue c)[m := int (count_true c m)]"
    and t': "t' = (if filter (is_true c) lits = [] then None
                   else Some (var (last (filter (is_true c) lits))))"
    by (simp_all add: lits ct nm0)
  have si1: "same_input c c1" using fr by (simp add: W1_frame_def same_input_def)
  have n1m: "numtrue c1 ! m = int (count_true c m)" using ml by (simp add: nt1)
  let ?c' = "W1_clause m c"
  have wc: "?c' =
     (if numtrue c1 ! m = 0
      then c1\<lparr>w := (w c1)[m := Some (length (f c1))], f := f c1 @ [m]\<rparr>
      else if numtrue c1 ! m = 1
      then (case t' of Some v \<Rightarrow> c1\<lparr>cost := (cost c1)[v := cost c1 ! v + 1]\<rparr> | None \<Rightarrow> c1)
      else c1)"
    by (simp add: W1_clause_def Let_def r)
  have wm: "w c ! m = None" using wn m by simp
  have w1: "w c1 = w c" "f c1 = f c" "cost c1 = cost c" "nclauses c1 = nclauses c"
    "nvars c1 = nvars c"
    using fr by (simp_all add: W1_frame_def)
  have fw1: "fw_inv c1" using fw by (simp add: fw_inv_def w1)
  \<comment> \<open>the fields of the result\<close>
  have si: "same_input c ?c'"
    using si1 by (simp add: wc same_input_def split: option.splits)
  have nc: "nclauses ?c' = nclauses c" "nvars ?c' = nvars c" using si by (simp_all add: same_input_def)
  have iv: "invclause ?c' l = invclause c l @ replicate (count_list lits l) m" for l
    using iv1 by (simp add: wc split: option.splits)
  have ntc: "numtrue ?c' = (numtrue c)[m := int (count_true c m)]"
    using nt1 by (simp add: wc split: option.splits)
  have wfc: "w ?c' = (if count_true c m = 0 then (w c)[m := Some (length (f c))] else w c)"
    "f ?c' = (if count_true c m = 0 then f c @ [m] else f c)"
    by (simp_all add: wc n1m w1 split: option.splits)
  have 1: "formula_ok ?c'" using fo same_input_formula_ok [OF si] by simp
  have 2: "sized ?c'"
  proof -
    have "length (cost ?c') = length (cost c)"
      by (simp add: wc w1 split: option.splits)
    then show ?thesis using sz si by (simp add: sized_def same_input_def ntc wfc)
  qed
  have 3: "fw_inv ?c'"
  proof (cases "count_true c m = 0")
    case True
    have "fw_inv (register_unsatisfied c m)" using fw m wm by (rule register_unsatisfied_fw_inv)
    moreover have "w ?c' = w (register_unsatisfied c m)" "f ?c' = f (register_unsatisfied c m)"
      using True register_unsatisfied_new [OF wm] by (simp_all add: wfc)
    moreover have "nclauses (register_unsatisfied c m) = nclauses c"
      using register_unsatisfied_same [of c m] by (simp add: same_formula_def)
    ultimately show ?thesis by (simp add: fw_inv_def nc)
  next
    case False
    then show ?thesis using fw by (simp add: fw_inv_def nc wfc)
  qed
  have 4: "\<forall>l k. count_list (invclause ?c' l) k =
             (if k < Suc m then count_list (clause_lits ?c' k) l else 0)"
    using ix by (auto simp: iv count_list_replicate same_input_lits [OF si] lits_def less_Suc_eq)
  have 5: "\<forall>k < nclauses ?c'. numtrue ?c' ! k = (if k < Suc m then int (count_true ?c' k) else 0)"
    using nt ml by (auto simp: nc ntc same_input_count_true [OF si] nth_list_update less_Suc_eq)
  have 6: "\<forall>k < nclauses ?c'. if k < Suc m then (w ?c' ! k \<noteq> None) = (numtrue ?c' ! k = 0)
                                else w ?c' ! k = None"
    using wn ml wm by (auto simp: nc ntc wfc nth_list_update less_Suc_eq)
  have 7: "\<forall>v \<le> nvars ?c'. cost ?c' ! v = (\<Sum>k < Suc m. contrib ?c' k v)"
    unfolding nc
  proof (intro allI impI)
    fix u assume u: "u \<le> nvars c"
    then have ul: "u < length (cost c)" using sz by (simp add: sized_def)
    have sum: "(\<Sum>k < Suc m. contrib ?c' k u) = cost c ! u + contrib c m u"
      using co u by (simp add: same_input_contrib [OF si])
    have "cost ?c' ! u = cost c ! u + contrib c m u"
    proof (cases "count_true c m = 1")
      case True
      then have one: "length (filter (is_true c) lits) = 1" by (simp add: count_true_def lits_def)
      then have ne: "filter (is_true c) lits \<noteq> []" by auto
      define v where "v = var (last (filter (is_true c) lits))"
      have "last (filter (is_true c) lits) \<in> set (filter (is_true c) lits)"
        using ne by (rule last_in_set)
      then have "last (filter (is_true c) lits) \<in> set lits" by (simp only: set_filter mem_Collect_eq)
      then have "last (filter (is_true c) lits) \<in> set (clause_lits c m)" by (simp add: lits_def)
      with fo m have "v \<le> nvars c" by (auto simp: formula_ok_def v_def)
      then have vl: "v < length (cost c)" using sz by (simp add: sized_def)
      have cst: "cost ?c' = (cost c)[v := cost c ! v + 1]"
        using True ne by (simp add: wc n1m t' w1 v_def)
      have "contrib c m u = (if v = u then 1 else 0)"
        using True filter_single [OF one, of var u]
        by (simp add: contrib_def lits_def [symmetric] v_def)
      then show ?thesis using vl ul by (auto simp: cst nth_list_update)
    next
      case False
      then have "cost ?c' = cost c"
        by (auto simp: wc n1m w1 split: option.splits)
      moreover have "contrib c m u = 0" using False by (simp add: contrib_def)
      ultimately show ?thesis by simp
    qed
    then show "cost ?c' ! u = (\<Sum>k < Suc m. contrib ?c' k u)" by (simp only: sum)
  qed
  from 1 2 3 4 5 6 7 si show ?thesis by (simp add: W1_inv_def)
qed

lemma fold_W1_val:
  "fold (W1_val E) is (c, g) = (c', g') \<Longrightarrow>
   c' = c\<lparr>val := val c'\<rparr> \<and> length (val c') = length (val c)"
proof (induction "is" arbitrary: c g)
  case Nil
  then show ?case by simp
next
  case (Cons i "is")
  obtain h g1 where fl: "flip E (PARAM_initial_bias E) g = (h, g1)"
    by (cases "flip E (PARAM_initial_bias E) g")
  let ?c1 = "c\<lparr>val := (val c)[i := h]\<rparr>"
  have "W1_val E i (c, g) = (?c1, g1)" by (simp add: W1_val_def fl)
  with Cons.prems have "fold (W1_val E) is (?c1, g1) = (c', g')" by simp
  from Cons.IH [OF this] have a: "c' = ?c1\<lparr>val := val c'\<rparr>" and b: "length (val c') = length (val ?c1)"
    by blast+
  from a have "c' = c\<lparr>val := val c'\<rparr>" by simp
  with b show ?case by simp
qed

lemma fold_W1_clause:
  assumes "W1_inv 0 c" and "m \<le> nclauses c"
  shows "W1_inv m (fold W1_clause [0 ..< m] c) \<and> same_input c (fold W1_clause [0 ..< m] c)"
  using assms(2)
proof (induction m)
  case 0
  then show ?case using assms(1) by (simp add: same_input_def)
next
  case (Suc m)
  let ?c = "fold W1_clause [0 ..< m] c"
  from Suc have IH: "W1_inv m ?c" "same_input c ?c" by simp_all
  then have "m < nclauses ?c" using Suc.prems by (simp add: same_input_def)
  from W1_clause_step [OF IH(1) this]
  have "W1_inv (Suc m) (W1_clause m ?c)" "same_input ?c (W1_clause m ?c)" by blast+
  with IH(2) show ?case by (simp add: same_input_def)
qed

lemma W1_inv_init:
  assumes "formula_ok c" and "sized c" and "f c = []" and "w c = replicate (nclauses c) None"
    and "numtrue c = replicate (nclauses c) 0" and "cost c = replicate (nvars c + 1) 0"
    and "invclause c = (\<lambda>l. [])"
  shows "W1_inv 0 c"
proof -
  have "cost c ! v = 0" if "v \<le> nvars c" for v
  proof -
    from that have "v < nvars c + 1" by simp
    then show ?thesis by (simp only: assms(6) nth_replicate)
  qed
  then show ?thesis using assms(1-5,7) by (simp add: W1_inv_def fw_inv_def)
qed

lemma W1_inv_final:
  assumes "W1_inv (nclauses c) c"
  shows "W_inv c \<and> cost_ok c"
proof -
  from assms have a: "formula_ok c" "sized c" "fw_inv c" "index_ok c" "numtrue_ok c" "unsat_ok c"
    and co: "\<forall>v \<le> nvars c. cost c ! v = (\<Sum>k < nclauses c. contrib c k v)"
    by (simp_all add: W1_inv_def index_ok_def numtrue_ok_def unsat_ok_def)
  then show ?thesis by (simp add: W_inv_def cost_ok_contrib)
qed

definition fresh :: "Cnf \<Rightarrow> bool" where
  "fresh c \<longleftrightarrow> c = (Cnf_new (nvars c) (nclauses c))\<lparr>clauses := clauses c, start := start c\<rparr>"

lemma W1_establishes:
  assumes "fresh c0" and "formula_ok c0" and "W1 E c0 g = (c, g')"
  shows "W_inv c \<and> cost_ok c \<and> clauses c = clauses c0 \<and> start c = start c0 \<and>
         nvars c = nvars c0 \<and> nclauses c = nclauses c0"
proof -
  obtain c1 g1 where v: "fold (W1_val E) [1 ..< nvars c0 + 1] (c0, g) = (c1, g1)"
    by (cases "fold (W1_val E) [1 ..< nvars c0 + 1] (c0, g)")
  from fold_W1_val [OF v] have c1: "c1 = c0\<lparr>val := val c1\<rparr>" and lv: "length (val c1) = length (val c0)"
    by blast+
  have c0: "c0 = (Cnf_new (nvars c0) (nclauses c0))\<lparr>clauses := clauses c0, start := start c0\<rparr>"
    using assms(1) by (simp add: fresh_def)
  have f0: "f c0 = []" "w c0 = replicate (nclauses c0) None" "numtrue c0 = replicate (nclauses c0) 0"
    "cost c0 = replicate (nvars c0 + 1) 0" "invclause c0 = (\<lambda>l. [])" "length (val c0) = nvars c0 + 1"
    by (subst c0, simp add: Cnf_new_def)+
  have f1: "f c1 = []" "w c1 = replicate (nclauses c1) None" "numtrue c1 = replicate (nclauses c1) 0"
    "cost c1 = replicate (nvars c1 + 1) 0" "invclause c1 = (\<lambda>l. [])" "length (val c1) = nvars c1 + 1"
    "nclauses c1 = nclauses c0" "nvars c1 = nvars c0" "clauses c1 = clauses c0" "start c1 = start c0"
    by (subst c1, simp add: f0 lv)+
  have fo1: "formula_ok c1" using assms(2) by (subst c1) simp
  have sz1: "sized c1" by (simp add: sized_def f1)
  have "W1_inv 0 c1" using fo1 sz1 f1(1-5) by (rule W1_inv_init)
  from fold_W1_clause [OF this, of "nclauses c1"]
  have i: "W1_inv (nclauses c1) (fold W1_clause [0 ..< nclauses c1] c1)"
    and s: "same_input c1 (fold W1_clause [0 ..< nclauses c1] c1)"
    by simp_all
  have c: "c = fold W1_clause [0 ..< nclauses c1] c1"
    using assms(3) unfolding W1_def v by simp
  from s have nc: "nclauses c = nclauses c1" by (simp add: c same_input_def)
  from i have "W1_inv (nclauses c) c" by (simp add: c [symmetric] nc)
  moreover from s have "clauses c = clauses c0" "start c = start c0" "nvars c = nvars c0"
    "nclauses c = nclauses c0"
    unfolding c same_input_def by (simp_all add: f1)
  ultimately show ?thesis using W1_inv_final [of c] by simp
qed

subsection \<open>The invariants at every loop boundary\<close>

lemma W_inv_unsat_set:
  assumes "W_inv c"
  shows "set (f c) = {k. k < nclauses c \<and> numtrue c ! k = 0}"
proof (rule set_eqI, rule iffI)
  from assms have fw: "fw_inv c" and un: "unsat_ok c" by (simp_all add: W_inv_def)
  {
    fix k assume "k \<in> set (f c)"
    then obtain p where p: "p < length (f c)" "f c ! p = k" by (auto simp: in_set_conv_nth)
    with fw have "k < nclauses c" "w c ! k = Some p" by (auto simp: fw_inv_def)
    with un show "k \<in> {k. k < nclauses c \<and> numtrue c ! k = 0}" by (auto simp: unsat_ok_def)
  next
    fix k assume "k \<in> {k. k < nclauses c \<and> numtrue c ! k = 0}"
    then have k: "k < nclauses c" "numtrue c ! k = 0" by simp_all
    with un obtain p where "w c ! k = Some p" by (auto simp: unsat_ok_def)
    with fw k(1) have "p < length (f c)" "f c ! p = k" by (auto simp: fw_inv_def)
    then show "k \<in> set (f c)" by (metis nth_mem)
  }
qed

text \<open>
  C3. A loop boundary is the state in which the loop of \<open>solve\<close> stands at W2: after W1,
  or after a pass has finished W5. At each of them, for a formula whose literals are in
  range: \<open>numtrue[k]\<close> is the number of true literals of clause \<open>k\<close>, each occurrence
  counted; \<open>w[k]\<close> is not nil exactly when \<open>numtrue[k] = 0\<close>; a \<open>w[k]\<close> that is not
  nil is a position of \<open>f\<close> that holds \<open>k\<close>; \<open>f\<close> has no duplicates and holds exactly the
  clauses with \<open>numtrue = 0\<close>, so its length is their number. Clauses may repeat a literal
  or contain a complementary pair.
\<close>

theorem loop_boundary_invariants:
  assumes "fresh c0" and "formula_ok c0"
    and "solve_iter E n (fst (W1 E c0 g)) (snd (W1 E c0 g)) = Some (flips, c, g')"
  shows "(\<forall>k < nclauses c. numtrue c ! k = int (length (filter (is_true c) (clause_lits c k)))) \<and>
         (\<forall>k < nclauses c. (w c ! k \<noteq> None) = (numtrue c ! k = 0)) \<and>
         (\<forall>k < nclauses c. \<forall>p. w c ! k = Some p \<longrightarrow> p < length (f c) \<and> f c ! p = k) \<and>
         distinct (f c) \<and>
         set (f c) = {k. k < nclauses c \<and> numtrue c ! k = 0} \<and>
         length (f c) = card {k. k < nclauses c \<and> numtrue c ! k = 0}"
proof -
  have "W_inv (fst (W1 E c0 g))"
    using W1_establishes [OF assms(1,2), of E g "fst (W1 E c0 g)" "snd (W1 E c0 g)"] by simp
  from solve_iter_W_inv [OF this assms(3)] have inv: "W_inv c" by simp
  then have a: "numtrue_ok c" "unsat_ok c" "fw_inv c" by (simp_all add: W_inv_def)
  note s = W_inv_unsat_set [OF inv]
  have d: "distinct (f c)" using a(3) by (simp add: fw_inv_def)
  have "length (f c) = card (set (f c))" using d by (simp add: distinct_card)
  then have l: "length (f c) = card {k. k < nclauses c \<and> numtrue c ! k = 0}" by (simp only: s)
  from a d s l show ?thesis
    unfolding numtrue_ok_def unsat_ok_def fw_inv_def count_true_def by blast
qed

lemma solve_model:
  assumes "fresh c0" and "formula_ok c0" and "solve E c0 g = Some (Inr (b, c, g'))"
  shows "b \<and> f c = [] \<and> (\<forall>k < nclauses c. is_satisfied c k) \<and>
         clauses c = clauses c0 \<and> start c = start c0 \<and>
         nvars c = nvars c0 \<and> nclauses c = nclauses c0"
proof -
  obtain c1 g1 where w1: "W1 E c0 g = (c1, g1)" by (cases "W1 E c0 g")
  from W1_establishes [OF assms(1,2) w1]
  have i1: "W_inv c1" and s1: "clauses c1 = clauses c0" "start c1 = start c0"
    "nvars c1 = nvars c0" "nclauses c1 = nclauses c0"
    by blast+
  from assms(3) have "solve_loop E c1 g1 = Some (Inr (b, c, g'))" by (simp add: solve_def w1)
  from solve_loop_W_inv [OF this i1]
  have r: "b" "f c = []" "W_inv c" "clauses c = clauses c1" "start c = start c1"
    "nvars c = nvars c1" "nclauses c = nclauses c1"
    by blast+
  have sat: "is_satisfied c k" if k: "k < nclauses c" for k
  proof -
    from W_inv_unsat_set [OF r(3)] r(2) k have "numtrue c ! k \<noteq> 0" by auto
    moreover from r(3) k have "numtrue c ! k = int (count_true c k)"
      by (simp add: W_inv_def numtrue_ok_def)
    ultimately have "filter (is_true c) (clause_lits c k) \<noteq> []" by (auto simp: count_true_def)
    then show ?thesis by (auto simp: is_satisfied_def list_ex_iff filter_empty_conv)
  qed
  from r sat s1 show ?thesis by simp
qed

text \<open>
  C1. When \<open>solve\<close> returns on a formula whose literals are in range, it returns true, the
  stack \<open>f\<close> is empty, the formula is the one it was given, and every clause has a literal
  that is true under the returned \<open>val\<close>: \<open>is_satisfied(k)\<close> holds for each \<open>k\<close>.
\<close>

theorem solve_returns_model:
  assumes "fresh c0" and "formula_ok c0" and "solve E c0 g = Some (Inr (b, c, g'))"
  shows "b \<and> f c = [] \<and> (\<forall>k < nclauses c. is_satisfied c k) \<and>
         clauses c = clauses c0 \<and> start c = start c0 \<and>
         nvars c = nvars c0 \<and> nclauses c = nclauses c0"
  using assms by (rule solve_model)

subsection \<open>From the input to the model\<close>

text \<open>
  What \<open>parse\<close> returns is a freshly constructed \<open>Cnf\<close> with the literal array and the
  clause starts filled in, and its literals are in range when those of the input are (the
  parser itself does not check it). So the hypotheses of C1 to C3 hold for the formulas the
  program solves, and a SAT exit of \<open>main\<close> carries a model.
\<close>

lemma read_lits_tokens:
  "read_lits toks cl rl = (eof, rest, cl', rl') \<Longrightarrow>
   \<exists>ls. cl' = cl @ ls \<and> 0 \<notin> set ls \<and> set ls \<subseteq> set toks \<and> set rest \<subseteq> set toks"
proof (induction toks arbitrary: cl rl)
  case Nil
  then show ?case by simp
next
  case (Cons lit toks)
  show ?case
  proof (cases "lit = 0")
    case True
    with Cons.prems show ?thesis by auto
  next
    case False
    with Cons.prems have "read_lits toks (cl @ [lit]) True = (eof, rest, cl', rl')" by simp
    from Cons.IH [OF this] obtain ls where
      "cl' = (cl @ [lit]) @ ls" "0 \<notin> set ls" "set ls \<subseteq> set toks" "set rest \<subseteq> set toks"
      by blast
    with False show ?thesis by (intro exI [of _ "lit # ls"]) auto
  qed
qed

definition parsed_ok :: "nat \<Rightarrow> Cnf \<Rightarrow> bool" where
  "parsed_ok V c \<longleftrightarrow>
     (\<forall>s \<in> set (start c). s \<le> length (clauses c)) \<and>
     (\<forall>l \<in> set (clauses c). l \<noteq> 0 \<and> var l \<le> V)"

lemma read_clauses_parsed_ok:
  "read_clauses toks c = Parsed c' \<Longrightarrow> parsed_ok V c \<Longrightarrow> \<forall>t \<in> set toks. var t \<le> V \<Longrightarrow>
   parsed_ok V c'"
proof (induction toks c rule: read_clauses.induct)
  case (1 toks c)
  obtain eof rest cl rl where r: "read_lits toks (clauses c) False = (eof, rest, cl, rl)"
    by (metis prod_cases4)
  from read_lits_tokens [OF r] obtain ls where
    ls: "cl = clauses c @ ls" "0 \<notin> set ls" "set ls \<subseteq> set toks" "set rest \<subseteq> set toks"
    by blast
  let ?c1 = "c\<lparr>clauses := cl, start := start c @ [length (clauses c)]\<rparr>"
  have ok1: "parsed_ok V ?c1"
    using "1.prems"(2,3) ls by (auto simp: parsed_ok_def)
  have ok0: "parsed_ok V (c\<lparr>clauses := cl\<rparr>)"
    using "1.prems"(2,3) ls by (auto simp: parsed_ok_def)
  show ?case
  proof (cases "rl \<and> \<not> eof")
    case True
    then have ne: "length (clauses c) \<noteq> length cl" using read_lits_result [OF r] by auto
    with "1.prems"(1) True r have rc: "read_clauses rest ?c1 = Parsed c'"
      by (subst (asm) read_clauses.simps) simp
    show ?thesis
      by (rule "1.IH" [of "length (clauses c)" eof "(rest, cl, rl)" rest "(cl, rl)" cl rl ?c1])
         (use r True ne rc ok1 "1.prems"(3) ls(4) in auto)
  next
    case False
    with "1.prems"(1) r ok0 ok1 show ?thesis
      by (subst (asm) read_clauses.simps) (auto simp: Let_def split: if_splits)
  qed
qed

lemma parse_fresh_formula_ok:
  assumes "parse E nv nc toks = Parsed c" and "\<forall>t \<in> set toks. var t \<le> nat nv"
  shows "fresh c \<and> formula_ok c \<and> nvars c = nat nv \<and> nclauses c = nat nc"
proof -
  let ?c0 = "Cnf_new (nat nv) (nat nc)"
  from assms(1) have rc: "read_clauses toks ?c0 = Parsed c"
    and len: "length (start c) = nclauses c"
    by (auto simp: parse_def split: if_splits parsed.splits)
  from read_clauses_frame [OF rc]
  have fr: "c = ?c0\<lparr>clauses := clauses c, start := start c\<rparr>" by blast
  have nv: "nvars c = nat nv" and nc: "nclauses c = nat nc"
    by (subst fr, simp add: Cnf_new_def)+
  have fresh: "fresh c"
    unfolding fresh_def nv nc using fr .
  have "parsed_ok (nat nv) ?c0" by (simp add: parsed_ok_def Cnf_new_def)
  from read_clauses_parsed_ok [OF rc this assms(2)]
  have st: "\<forall>s \<in> set (start c). s \<le> length (clauses c)"
    and li: "\<forall>l \<in> set (clauses c). l \<noteq> 0 \<and> var l \<le> nat nv"
    by (simp_all add: parsed_ok_def)
  have ce: "clause_end c k \<le> length (clauses c)" if "k < nclauses c" for k
  proof (cases "k + 1 = length (start c)")
    case True
    then show ?thesis by (simp add: clause_end_def)
  next
    case False
    with that len have "k + 1 < length (start c)" by simp
    then have "start c ! (k + 1) \<in> set (start c)" by (rule nth_mem)
    with st False show ?thesis by (simp add: clause_end_def)
  qed
  have cl: "l \<noteq> 0 \<and> var l \<le> nvars c" if "k < nclauses c" "l \<in> set (clause_lits c k)" for k l
  proof -
    from that(2) obtain j where j: "j < clause_end c k" "l = clauses c ! j"
      by (auto simp: clause_lits_def)
    with ce [OF that(1)] have "j < length (clauses c)" by simp
    then have "l \<in> set (clauses c)" unfolding j(2) by (rule nth_mem)
    with li show ?thesis by (simp add: nv)
  qed
  have "formula_ok c" unfolding formula_ok_def using len ce cl by blast
  with fresh nv nc show ?thesis by simp
qed

lemma main_sat_exit_model:
  assumes "main E srand FLAGS_seed now nv nc toks = Some (SAT_EXIT c)"
    and "\<forall>t \<in> set toks. var t \<le> nat nv"
  shows "\<forall>k < nclauses c. is_satisfied c k"
proof -
  from assms(1) obtain c0 where p: "parse E nv nc toks = Parsed c0"
    by (auto simp: main_def split: parsed.splits)
  from parse_fresh_formula_ok [OF p assms(2)] have fr: "fresh c0" and fo: "formula_ok c0" by simp_all
  show ?thesis
  proof (cases "clauses c0 = []")
    case True
    with assms(1) p have "c = c0" by (simp add: main_def)
    moreover from parse_no_literals [OF p True] have "nclauses c0 = 0" by (simp add: Cnf_new_def)
    ultimately show ?thesis by simp
  next
    case False
    with assms(1) p obtain g' where
      "solve E c0 (Cnf_srand srand FLAGS_seed now) = Some (Inr (True, c, g'))"
      by (auto simp: main_def split: option.splits sum.splits prod.splits bool.splits)
    from solve_model [OF fr fo this] show ?thesis by simp
  qed
qed


section \<open>The cost of a variable\<close>

lemma find_single:
  assumes "length (filter P xs) = 1"
  shows "find P xs = Some (last (filter P xs))"
proof -
  from assms obtain t where t: "filter P xs = [t]" by (cases "filter P xs") auto
  then show ?thesis
  proof (induction xs)
    case Nil
    then show ?case by simp
  next
    case (Cons x xs)
    then show ?case by (cases "P x") auto
  qed
qed

lemma find_none: "filter P xs = [] \<Longrightarrow> find P xs = None"
  by (induction xs) (auto split: if_splits)

lemma same_formula_contrib: "same_formula c c' \<Longrightarrow> contrib c' k u = contrib c k u"
  by (simp add: contrib_def same_formula_lits same_formula_is_true same_formula_count_true)

lemma W5_lost_cost:
  assumes sf: "same_formula c1 c'" and tr: "tracked c'" and fo: "formula_ok c1"
    and i: "i < nclauses c1" and nt: "numtrue c' ! i = int (count_true c1 i) + 1"
    and v: "v \<le> nvars c1" and u: "u \<le> nvars c1"
  shows "cost (W5_lost v i c') ! u =
           cost c' ! u - (if count_true c1 i = 0 \<and> u = v then 1 else 0) + contrib c1 i u"
proof -
  from tr have sz: "sized c'" by (simp add: tracked_def)
  from sf have eqs: "nclauses c' = nclauses c1" "nvars c' = nvars c1" by (simp_all add: same_formula_def)
  have il: "i < length (numtrue c')" using sz i eqs by (simp add: sized_def)
  have vl: "v < length (cost c')" "u < length (cost c')" using sz v u eqs by (simp_all add: sized_def)
  define c2 where "c2 = c'\<lparr>numtrue := (numtrue c')[i := numtrue c' ! i - 1]\<rparr>"
  have n2: "numtrue c2 ! i = int (count_true c1 i)" using il nt by (simp add: c2_def)
  have sf2: "same_formula c1 c2" using sf by (simp add: same_formula_def c2_def)
  have lits: "clause_lits c2 i = clause_lits c1 i" using sf2 by (rule same_formula_lits)
  have tv: "is_true c2 = is_true c1" using same_formula_is_true [OF sf2] by (intro ext)
  have cst2: "cost c2 = cost c'" by (simp add: c2_def)
  have W: "W5_lost v i c' =
     (if numtrue c2 ! i = 0
      then (let c3 = register_unsatisfied c2 i in c3\<lparr>cost := (cost c3)[v := cost c3 ! v - 1]\<rparr>)
      else if numtrue c2 ! i = 1
      then (case find (is_true c2) (clause_lits c2 i) of
              Some l \<Rightarrow> c2\<lparr>cost := (cost c2)[var l := cost c2 ! var l + 1]\<rparr>
            | None \<Rightarrow> c2)
      else c2)"
    unfolding W5_lost_def Let_def c2_def by (rule refl)
  consider (zero) "count_true c1 i = 0" | (one) "count_true c1 i = 1" | (more) "2 \<le> count_true c1 i"
    by linarith
  then show ?thesis
  proof cases
    case zero
    then have "cost (W5_lost v i c') = (cost c')[v := cost c' ! v - 1]"
      by (simp add: W n2 Let_def register_unsatisfied_cost cst2)
    moreover have "contrib c1 i u = 0" using zero by (simp add: contrib_def)
    ultimately show ?thesis using zero vl by (auto simp: nth_list_update)
  next
    case one
    then have single: "length (filter (is_true c1) (clause_lits c1 i)) = 1"
      by (simp add: count_true_def)
    define t where "t = last (filter (is_true c1) (clause_lits c1 i))"
    have "filter (is_true c1) (clause_lits c1 i) \<noteq> []" using single by auto
    then have "t \<in> set (filter (is_true c1) (clause_lits c1 i))" unfolding t_def by (rule last_in_set)
    then have "t \<in> set (clause_lits c1 i)" by (simp only: set_filter mem_Collect_eq)
    with fo i have "var t \<le> nvars c1" by (auto simp: formula_ok_def)
    then have tl: "var t < length (cost c')" using sz eqs by (simp add: sized_def)
    have "find (is_true c2) (clause_lits c2 i) = Some t"
      unfolding tv lits t_def using single by (rule find_single)
    then have "cost (W5_lost v i c') = (cost c')[var t := cost c' ! var t + 1]"
      using one by (simp add: W n2 cst2)
    moreover have "contrib c1 i u = (if var t = u then 1 else 0)"
      using one filter_single [OF single, of var u] by (simp add: contrib_def t_def)
    ultimately show ?thesis using one tl vl by (auto simp: nth_list_update)
  next
    case more
    then have "cost (W5_lost v i c') = cost c'" by (simp add: W n2 cst2)
    moreover have "contrib c1 i u = 0" using more by (simp add: contrib_def)
    ultimately show ?thesis using more by simp
  qed
qed

lemma filter_other:
  assumes "count_list ls x = 1" and "P x"
  shows "length (filter (\<lambda>l. l \<noteq> x \<and> P l) ls) + 1 = length (filter P ls)"
  using assms(1)
proof (induction ls)
  case Nil
  then show ?case by simp
next
  case (Cons l ls)
  show ?case
  proof (cases "l = x")
    case True
    with Cons.prems have "count_list ls x = 0" by simp
    then have "x \<notin> set ls" by (simp add: count_list_0_iff)
    then have "filter (\<lambda>l. l \<noteq> x \<and> P l) ls = filter P ls"
      by (intro filter_cong) auto
    with True assms(2) show ?thesis by simp
  next
    case False
    with Cons show ?thesis by simp
  qed
qed

lemma W5_gained_cost:
  assumes sf: "same_formula c1 c'" and tr: "tracked c'" and fo: "formula_ok c1"
    and i: "i < nclauses c1" and nt: "numtrue c' ! i + 1 = int (count_true c1 i)"
    and v: "v \<le> nvars c1" and u: "u \<le> nvars c1"
    and neg: "count_list (clause_lits c1 i) neg = 1" "is_true c1 neg" "var neg = v"
  shows "cost (W5_gained v neg i c') ! u =
           cost c' ! u
           - (if count_true c1 i = 2 \<and>
                 var (last (filter (\<lambda>l. l \<noteq> neg \<and> is_true c1 l) (clause_lits c1 i))) = u
              then 1 else 0)
           + contrib c1 i u"
proof -
  from tr have sz: "sized c'" by (simp add: tracked_def)
  from sf have eqs: "nclauses c' = nclauses c1" "nvars c' = nvars c1" by (simp_all add: same_formula_def)
  have il: "i < length (numtrue c')" using sz i eqs by (simp add: sized_def)
  have vl: "v < length (cost c')" "u < length (cost c')" using sz v u eqs by (simp_all add: sized_def)
  define c2 where "c2 = c'\<lparr>numtrue := (numtrue c')[i := numtrue c' ! i + 1]\<rparr>"
  have n2: "numtrue c2 ! i = int (count_true c1 i)" using il nt by (simp add: c2_def)
  have sf2: "same_formula c1 c2" using sf by (simp add: same_formula_def c2_def)
  have lits: "clause_lits c2 i = clause_lits c1 i" using sf2 by (rule same_formula_lits)
  have tv: "is_true c2 = is_true c1" using same_formula_is_true [OF sf2] by (intro ext)
  have cst2: "cost c2 = cost c'" by (simp add: c2_def)
  let ?Q = "\<lambda>l. l \<noteq> neg \<and> is_true c1 l"
  have W: "W5_gained v neg i c' =
     (if numtrue c2 ! i = 1
      then (let c3 = register_satisfied c2 i in c3\<lparr>cost := (cost c3)[v := cost c3 ! v + 1]\<rparr>)
      else if numtrue c2 ! i = 2
      then (case find (\<lambda>l. l \<noteq> neg \<and> is_true c2 l) (clause_lits c2 i) of
              Some l \<Rightarrow> c2\<lparr>cost := (cost c2)[var l := cost c2 ! var l - 1]\<rparr>
            | None \<Rightarrow> c2)
      else c2)"
    unfolding W5_gained_def Let_def c2_def by (rule refl)
  have other: "length (filter ?Q (clause_lits c1 i)) + 1 = count_true c1 i"
    unfolding count_true_def using neg(1,2) by (rule filter_other)
  have negin: "neg \<in> set (clause_lits c1 i)" using neg(1) by (metis count_list_0_iff zero_neq_one)
  consider (one) "count_true c1 i = 1" | (two) "count_true c1 i = 2" | (more) "3 \<le> count_true c1 i"
    using other by linarith
  then show ?thesis
  proof cases
    case one
    then have single: "length (filter (is_true c1) (clause_lits c1 i)) = 1"
      by (simp add: count_true_def)
    have "cost (W5_gained v neg i c') = (cost c')[v := cost c' ! v + 1]"
      using one by (simp add: W n2 Let_def register_satisfied_cost cst2)
    moreover have "contrib c1 i u = (if v = u then 1 else 0)"
    proof -
      have "neg \<in> set (filter (is_true c1) (clause_lits c1 i))" using negin neg(2) by simp
      moreover obtain t where "filter (is_true c1) (clause_lits c1 i) = [t]"
        using single by (cases "filter (is_true c1) (clause_lits c1 i)") auto
      ultimately have "last (filter (is_true c1) (clause_lits c1 i)) = neg" by simp
      with one filter_single [OF single, of var u] show ?thesis
        by (simp add: contrib_def neg(3))
    qed
    ultimately show ?thesis using one vl by (auto simp: nth_list_update)
  next
    case two
    then have single: "length (filter ?Q (clause_lits c1 i)) = 1" using other by simp
    define t where "t = last (filter ?Q (clause_lits c1 i))"
    have "filter ?Q (clause_lits c1 i) \<noteq> []" using single by auto
    then have "t \<in> set (filter ?Q (clause_lits c1 i))" unfolding t_def by (rule last_in_set)
    then have "t \<in> set (clause_lits c1 i)" by (simp only: set_filter mem_Collect_eq)
    with fo i have "var t \<le> nvars c1" by (auto simp: formula_ok_def)
    then have tl: "var t < length (cost c')" using sz eqs by (simp add: sized_def)
    have "find (\<lambda>l. l \<noteq> neg \<and> is_true c2 l) (clause_lits c2 i) = Some t"
      unfolding tv lits t_def using single by (rule find_single)
    then have "cost (W5_gained v neg i c') = (cost c')[var t := cost c' ! var t - 1]"
      using two by (simp add: W n2 cst2)
    moreover have "contrib c1 i u = 0" using two by (simp add: contrib_def)
    ultimately show ?thesis using two tl vl by (auto simp: nth_list_update t_def)
  next
    case more
    then have "cost (W5_gained v neg i c') = cost c'" by (simp add: W n2 cst2)
    moreover have "contrib c1 i u = 0" using more by (simp add: contrib_def)
    ultimately show ?thesis using more by simp
  qed
qed

lemma sum_fun_upd:
  fixes h :: "nat \<Rightarrow> int"
  assumes "i < n"
  shows "(\<Sum>k < n. (h(i := x)) k) = (\<Sum>k < n. h k) - h i + x"
proof -
  have i: "i \<in> {..<n}" using assms by simp
  have "(\<Sum>k < n. (h(i := x)) k) = x + (\<Sum>k \<in> {..<n} - {i}. (h(i := x)) k)"
    using sum.remove [OF _ i, of "h(i := x)"] by simp
  also have "(\<Sum>k \<in> {..<n} - {i}. (h(i := x)) k) = (\<Sum>k \<in> {..<n} - {i}. h k)"
    by (intro sum.cong) auto
  also have "\<dots> = (\<Sum>k < n. h k) - h i"
    using sum.remove [OF _ i, of h] by simp
  finally show ?thesis by simp
qed

lemma fold_W5_lost_cost:
  assumes sf: "same_formula c1 c'" and tr: "tracked c'" and fo: "formula_ok c1"
    and d: "distinct is"
    and st: "\<forall>i \<in> set is. i < nclauses c1 \<and> numtrue c' ! i = int (count_true c1 i) + 1"
    and v: "v \<le> nvars c1"
    and co: "\<forall>u \<le> nvars c1. cost c' ! u = (\<Sum>k < nclauses c1. h k u)"
    and hs: "\<forall>i \<in> set is. \<forall>u. h i u = (if count_true c1 i = 0 \<and> u = v then 1 else 0)"
  shows "\<forall>u \<le> nvars c1. cost (fold (W5_lost v) is c') ! u =
           (\<Sum>k < nclauses c1. if k \<in> set is then contrib c1 k u else h k u)"
  using sf tr d st co hs
proof (induction "is" arbitrary: c' h)
  case Nil
  then show ?case by simp
next
  case (Cons i "is")
  let ?c'' = "W5_lost v i c'"
  let ?h = "\<lambda>k. if k = i then contrib c1 i else h k"
  from Cons.prems(1) have eqs: "nclauses c' = nclauses c1" by (simp add: same_formula_def)
  have i: "i < nclauses c1" and nt: "numtrue c' ! i = int (count_true c1 i) + 1"
    using Cons.prems(4) by simp_all
  have ni: "i \<notin> set is" and d': "distinct is" using Cons.prems(3) by simp_all
  have il: "i < length (numtrue c')" using Cons.prems(2) i eqs by (simp add: tracked_def sized_def)
  have sf': "same_formula c1 ?c''"
    using Cons.prems(1) W5_lost_same by (rule same_formula_trans)
  have tr': "tracked ?c''"
    using Cons.prems(2) by (rule W5_lost_tracked) (simp_all add: eqs i nt)
  have st': "\<forall>j \<in> set is. j < nclauses c1 \<and> numtrue ?c'' ! j = int (count_true c1 j) + 1"
    using Cons.prems(4) ni il by (auto simp: W5_lost_numtrue nth_list_update)
  have co': "\<forall>u \<le> nvars c1. cost ?c'' ! u = (\<Sum>k < nclauses c1. ?h k u)"
  proof (intro allI impI)
    fix u assume u: "u \<le> nvars c1"
    have "cost ?c'' ! u = cost c' ! u - h i u + contrib c1 i u"
      using W5_lost_cost [OF Cons.prems(1,2) fo i nt v u] Cons.prems(6) by simp
    also have "\<dots> = (\<Sum>k < nclauses c1. h k u) - h i u + contrib c1 i u"
      using Cons.prems(5) u by simp
    also have "\<dots> = (\<Sum>k < nclauses c1. ((\<lambda>k. h k u)(i := contrib c1 i u)) k)"
      using sum_fun_upd [OF i, of "\<lambda>k. h k u" "contrib c1 i u"] by simp
    also have "\<dots> = (\<Sum>k < nclauses c1. ?h k u)" by (intro sum.cong) auto
    finally show "cost ?c'' ! u = (\<Sum>k < nclauses c1. ?h k u)" .
  qed
  have hs': "\<forall>j \<in> set is. \<forall>u. ?h j u = (if count_true c1 j = 0 \<and> u = v then 1 else 0)"
    using Cons.prems(6) ni by auto
  from Cons.IH [OF sf' tr' d' st' co' hs']
  have "\<forall>u \<le> nvars c1. cost (fold (W5_lost v) is ?c'') ! u =
          (\<Sum>k < nclauses c1. if k \<in> set is then contrib c1 k u else ?h k u)" .
  moreover have "(\<Sum>k < nclauses c1. if k \<in> set is then contrib c1 k u else ?h k u) =
        (\<Sum>k < nclauses c1. if k \<in> set (i # is) then contrib c1 k u else h k u)" for u
    by (intro sum.cong) auto
  ultimately show ?case by simp
qed

lemma fold_W5_gained_cost:
  assumes sf: "same_formula c1 c'" and tr: "tracked c'" and fo: "formula_ok c1"
    and d: "distinct is"
    and st: "\<forall>i \<in> set is. i < nclauses c1 \<and> numtrue c' ! i + 1 = int (count_true c1 i) \<and>
                count_list (clause_lits c1 i) neg = 1"
    and v: "v \<le> nvars c1" and neg: "is_true c1 neg" "var neg = v"
    and co: "\<forall>u \<le> nvars c1. cost c' ! u = (\<Sum>k < nclauses c1. h k u)"
    and hs: "\<forall>i \<in> set is. \<forall>u. h i u =
        (if count_true c1 i = 2 \<and>
            var (last (filter (\<lambda>l. l \<noteq> neg \<and> is_true c1 l) (clause_lits c1 i))) = u
         then 1 else 0)"
  shows "\<forall>u \<le> nvars c1. cost (fold (W5_gained v neg) is c') ! u =
           (\<Sum>k < nclauses c1. if k \<in> set is then contrib c1 k u else h k u)"
  using sf tr d st co hs
proof (induction "is" arbitrary: c' h)
  case Nil
  then show ?case by simp
next
  case (Cons i "is")
  let ?c'' = "W5_gained v neg i c'"
  let ?h = "\<lambda>k. if k = i then contrib c1 i else h k"
  from Cons.prems(1) have eqs: "nclauses c' = nclauses c1" by (simp add: same_formula_def)
  have i: "i < nclauses c1" and nt: "numtrue c' ! i + 1 = int (count_true c1 i)"
    and cn: "count_list (clause_lits c1 i) neg = 1"
    using Cons.prems(4) by simp_all
  have ni: "i \<notin> set is" and d': "distinct is" using Cons.prems(3) by simp_all
  have il: "i < length (numtrue c')" using Cons.prems(2) i eqs by (simp add: tracked_def sized_def)
  have sf': "same_formula c1 ?c''"
    using Cons.prems(1) W5_gained_same by (rule same_formula_trans)
  have tr': "tracked ?c''"
    using Cons.prems(2) by (rule W5_gained_tracked) (simp add: eqs i)
  have st': "\<forall>j \<in> set is. j < nclauses c1 \<and> numtrue ?c'' ! j + 1 = int (count_true c1 j) \<and>
               count_list (clause_lits c1 j) neg = 1"
    using Cons.prems(4) ni il by (auto simp: W5_gained_numtrue nth_list_update)
  have co': "\<forall>u \<le> nvars c1. cost ?c'' ! u = (\<Sum>k < nclauses c1. ?h k u)"
  proof (intro allI impI)
    fix u assume u: "u \<le> nvars c1"
    have "cost ?c'' ! u = cost c' ! u - h i u + contrib c1 i u"
      using W5_gained_cost [OF Cons.prems(1,2) fo i nt v u cn neg] Cons.prems(6) by simp
    also have "\<dots> = (\<Sum>k < nclauses c1. h k u) - h i u + contrib c1 i u"
      using Cons.prems(5) u by simp
    also have "\<dots> = (\<Sum>k < nclauses c1. ((\<lambda>k. h k u)(i := contrib c1 i u)) k)"
      using sum_fun_upd [OF i, of "\<lambda>k. h k u" "contrib c1 i u"] by simp
    also have "\<dots> = (\<Sum>k < nclauses c1. ?h k u)" by (intro sum.cong) auto
    finally show "cost ?c'' ! u = (\<Sum>k < nclauses c1. ?h k u)" .
  qed
  have hs': "\<forall>j \<in> set is. \<forall>u. ?h j u =
        (if count_true c1 j = 2 \<and>
            var (last (filter (\<lambda>l. l \<noteq> neg \<and> is_true c1 l) (clause_lits c1 j))) = u
         then 1 else 0)"
    using Cons.prems(6) ni by auto
  from Cons.IH [OF sf' tr' d' st' co' hs']
  have "\<forall>u \<le> nvars c1. cost (fold (W5_gained v neg) is ?c'') ! u =
          (\<Sum>k < nclauses c1. if k \<in> set is then contrib c1 k u else ?h k u)" .
  moreover have "(\<Sum>k < nclauses c1. if k \<in> set is then contrib c1 k u else ?h k u) =
        (\<Sum>k < nclauses c1. if k \<in> set (i # is) then contrib c1 k u else h k u)" for u
    by (intro sum.cong) auto
  ultimately show ?case by simp
qed

definition distinct_vars :: "Cnf \<Rightarrow> bool" where
  "distinct_vars c \<longleftrightarrow> (\<forall>k < nclauses c. distinct (map var (clause_lits c k)))"

lemma var_uminus [simp]: "var (- l) = var l"
  by (simp add: var_def)

lemma is_true_flip:
  assumes "var pos < length (val c)" and "pos \<noteq> 0" and "is_true c pos" and "l \<noteq> 0"
  shows "is_true (c\<lparr>val := (val c)[var pos := \<not> val c ! var pos]\<rparr>) l =
         (if l = pos then False else if l = - pos then True else is_true c l)"
proof (cases "var l = var pos")
  case True
  with assms have "l = pos \<or> l = - pos" by (intro var_eq_cases) auto
  then show ?thesis using assms by (auto simp: is_true_def var_def Let_def)
next
  case False
  then have "l \<noteq> pos" "l \<noteq> - pos" by (auto simp: var_def)
  then show ?thesis using False by (simp add: is_true_def Let_def)
qed

lemma distinct_vars_count:
  assumes "distinct (map var ls)" and "pos \<noteq> 0"
  shows "count_list ls pos + count_list ls (- pos) \<le> 1"
  using assms(1)
proof (induction ls)
  case Nil
  then show ?case by simp
next
  case (Cons l ls)
  show ?case
  proof (cases "l = pos \<or> l = - pos")
    case True
    then have "var l = var pos" by (auto simp: var_def)
    with Cons.prems have "var pos \<notin> var ` set ls" by simp
    then have "pos \<notin> set ls" "- pos \<notin> set ls" by (auto simp: var_def image_iff)
    then have "count_list ls pos = 0" "count_list ls (- pos) = 0" by (simp_all add: count_list_0_iff)
    with True assms(2) show ?thesis by auto
  next
    case False
    with Cons show ?thesis by simp
  qed
qed

lemma count_le_1_distinct: "(\<forall>x. count_list xs x \<le> 1) \<Longrightarrow> distinct xs"
proof (induction xs)
  case Nil
  then show ?case by simp
next
  case (Cons a xs)
  from Cons.prems have "count_list (a # xs) a \<le> 1" by blast
  then have "count_list xs a = 0" by simp
  then have "a \<notin> set xs" by (simp add: count_list_0_iff)
  moreover have "\<forall>x. count_list xs x \<le> 1"
  proof
    fix x from Cons.prems have "count_list (a # xs) x \<le> 1" by blast
    then show "count_list xs x \<le> 1" by (simp split: if_splits)
  qed
  ultimately show ?case using Cons.IH by simp
qed

lemma count_pos_in_set: "count_list xs x \<le> 1 \<Longrightarrow> x \<in> set xs \<Longrightarrow> count_list xs x = 1"
  by (metis count_list_0_iff le_neq_implies_less less_one)

lemma W5_cost_ok:
  assumes inv: "W_inv c" and cok: "cost_ok c" and dv: "distinct_vars c"
    and K: "K < nclauses c" and ch: "choice \<in> set (clause_lits c K)"
  shows "cost_ok (W5 c choice)"
proof -
  define pos where "pos = (if val c ! var choice = (choice > 0) then choice else - choice)"
  define c1 where "c1 = c\<lparr>val := (val c)[var choice := \<not> val c ! var choice]\<rparr>"
  define c2 where "c2 = fold (W5_lost (var choice)) (invclause c1 pos) c1"
  define c3 where "c3 = fold (W5_gained (var choice) (- pos)) (invclause c2 (- pos)) c2"
  define n where "n = nclauses c"
  have W5: "W5 c choice = c3"
    by (simp add: W5_def Let_def c3_def c2_def c1_def pos_def)
  from inv have fo: "formula_ok c" and sz: "sized c" and io: "index_ok c" and no: "numtrue_ok c"
    by (simp_all add: W_inv_def)
  from fo K ch have ch0: "choice \<noteq> 0" and chv: "var choice \<le> nvars c"
    by (auto simp: formula_ok_def)
  from pos_is_true [OF ch0 pos_def] have pt: "is_true c pos" and vp: "var pos = var choice"
    and p0: "pos \<noteq> 0" by simp_all
  have len: "var pos < length (val c)" using chv sz by (simp add: vp sized_def)
  have c1': "c1 = c\<lparr>val := (val c)[var pos := \<not> val c ! var pos]\<rparr>" by (simp add: c1_def vp)
  have lits1: "clause_lits c1 k = clause_lits c k" for k
    by (simp add: c1_def clause_lits_def clause_begin_def clause_end_def)
  have nc1: "nclauses c1 = n" and iv1: "invclause c1 = invclause c" and nv1: "nvars c1 = nvars c"
    and nt1: "numtrue c1 = numtrue c" and cs1: "cost c1 = cost c"
    by (simp_all add: c1_def n_def)
  have fo1: "formula_ok c1" using fo by (simp add: c1_def)
  have t1: "tracked c1"
    using W_inv_tracked [OF inv] by (simp add: tracked_def c1_def sized_def fw_inv_def unsat_ok_def)
  have nz: "l \<noteq> 0" if "k < n" "l \<in> set (clause_lits c k)" for k l
    using fo that by (auto simp: formula_ok_def n_def)
  \<comment> \<open>truth of the literals after the flip\<close>
  have tf: "is_true c1 l = (if l = pos then False else if l = - pos then True else is_true c l)"
    if "l \<noteq> 0" for l
    unfolding c1' using len p0 pt that by (rule is_true_flip)
  have ntneg: "is_true c1 (- pos)" using tf [of "- pos"] p0 by simp
  have nfneg: "\<not> is_true c (- pos)" using pt p0 by (auto simp: is_true_def var_def Let_def)
  \<comment> \<open>how often the two literals occur\<close>
  have cnt: "count_list (clause_lits c k) pos + count_list (clause_lits c k) (- pos) \<le> 1" if "k < n" for k
    using dv that p0 by (intro distinct_vars_count) (simp_all add: distinct_vars_def n_def)
  have ix: "count_list (invclause c l) k = (if k < n then count_list (clause_lits c k) l else 0)" for l k
    using io by (simp add: index_ok_def n_def)
  have ctf: "int (count_true c1 k) = int (count_true c k) - int (count_list (clause_lits c k) pos)
                     + int (count_list (clause_lits c k) (- pos))" if "k < n" for k
    unfolding count_true_def lits1 using len p0 pt c1' nz [OF that]
    by (intro count_true_flip) auto
  have inpos: "k < n \<and> count_list (clause_lits c k) pos = 1 \<and> count_list (clause_lits c k) (- pos) = 0
      \<and> int (count_true c k) = int (count_true c1 k) + 1"
    if "k \<in> set (invclause c pos)" for k
  proof -
    from that have "count_list (invclause c pos) k \<noteq> 0" by (simp add: count_list_0_iff)
    then have k: "k < n" and "count_list (clause_lits c k) pos \<noteq> 0"
      by (auto simp: ix split: if_splits)
    with cnt [OF k] have "count_list (clause_lits c k) pos = 1" "count_list (clause_lits c k) (- pos) = 0"
      by linarith+
    with k ctf [OF k] show ?thesis by simp
  qed
  have inneg: "k < n \<and> count_list (clause_lits c k) (- pos) = 1 \<and> count_list (clause_lits c k) pos = 0
      \<and> int (count_true c k) + 1 = int (count_true c1 k)"
    if "k \<in> set (invclause c (- pos))" for k
  proof -
    from that have "count_list (invclause c (- pos)) k \<noteq> 0" by (simp add: count_list_0_iff)
    then have k: "k < n" and "count_list (clause_lits c k) (- pos) \<noteq> 0"
      by (auto simp: ix split: if_splits)
    with cnt [OF k] have "count_list (clause_lits c k) (- pos) = 1" "count_list (clause_lits c k) pos = 0"
      by linarith+
    with k ctf [OF k] show ?thesis by simp
  qed
  have dpos: "distinct (invclause c pos)"
  proof (rule count_le_1_distinct, rule allI)
    fix k show "count_list (invclause c pos) k \<le> 1"
    proof (cases "k < n")
      case True
      from cnt [OF this] show ?thesis using True by (simp add: ix)
    next
      case False
      then show ?thesis by (simp add: ix)
    qed
  qed
  have dneg: "distinct (invclause c (- pos))"
  proof (rule count_le_1_distinct, rule allI)
    fix k show "count_list (invclause c (- pos)) k \<le> 1"
    proof (cases "k < n")
      case True
      from cnt [OF this] show ?thesis using True by (simp add: ix)
    next
      case False
      then show ?thesis by (simp add: ix)
    qed
  qed
  \<comment> \<open>the cost before the flip\<close>
  have co0: "\<forall>u \<le> nvars c1. cost c1 ! u = (\<Sum>k < nclauses c1. contrib c k u)"
    using cok cost_ok_contrib [OF no] by (simp add: nc1 nv1 cs1 n_def)
  \<comment> \<open>the clauses that lose a true literal\<close>
  have st1: "\<forall>i \<in> set (invclause c1 pos). i < nclauses c1 \<and> numtrue c1 ! i = int (count_true c1 i) + 1"
  proof
    fix i assume "i \<in> set (invclause c1 pos)"
    then have a: "i < n" "int (count_true c i) = int (count_true c1 i) + 1"
      using inpos [of i] by (simp_all add: iv1)
    with no show "i < nclauses c1 \<and> numtrue c1 ! i = int (count_true c1 i) + 1"
      by (simp add: nc1 nt1 numtrue_ok_def n_def)
  qed
  have hs1: "\<forall>i \<in> set (invclause c1 pos). \<forall>u.
      contrib c i u = (if count_true c1 i = 0 \<and> u = var choice then 1 else 0)"
  proof (intro ballI allI)
    fix i u assume "i \<in> set (invclause c1 pos)"
    then have a: "i < n" "count_list (clause_lits c i) pos = 1"
      "int (count_true c i) = int (count_true c1 i) + 1"
      using inpos [of i] by (simp_all add: iv1)
    show "contrib c i u = (if count_true c1 i = 0 \<and> u = var choice then 1 else 0)"
    proof (cases "count_true c1 i = 0")
      case True
      with a(3) have single: "length (filter (is_true c) (clause_lits c i)) = 1"
        by (simp add: count_true_def)
      have "pos \<in> set (clause_lits c i)" using a(2) by (metis count_list_0_iff zero_neq_one)
      then have "pos \<in> set (filter (is_true c) (clause_lits c i))" using pt by simp
      moreover obtain t where "filter (is_true c) (clause_lits c i) = [t]"
        using single by (cases "filter (is_true c) (clause_lits c i)") auto
      ultimately have "last (filter (is_true c) (clause_lits c i)) = pos" by simp
      with filter_single [OF single, of var u] single True show ?thesis
        by (auto simp: contrib_def count_true_def vp)
    next
      case False
      with a(3) have "count_true c i \<noteq> 1" by linarith
      with False show ?thesis by (simp add: contrib_def)
    qed
  qed
  have b1: "\<forall>i \<in> set (invclause c1 pos). i < nclauses c1" using st1 by blast
  have le: "\<forall>k < nclauses c1. int (count_list (invclause c1 pos) k) \<le> numtrue c1 ! k"
  proof (intro allI impI)
    fix k assume k: "k < nclauses c1"
    have "count_list (clause_lits c k) pos \<le> count_true c k"
      unfolding count_true_def using pt by (rule count_list_le_filter)
    then show "int (count_list (invclause c1 pos) k) \<le> numtrue c1 ! k"
      using no k by (simp add: nt1 nc1 iv1 ix numtrue_ok_def n_def)
  qed
  from fold_W5_lost [OF t1 b1 le, of "var choice"]
  have t2: "tracked c2" and s12: "same_formula c1 c2"
    and n2: "\<forall>k < n. numtrue c2 ! k = numtrue c ! k - int (count_list (invclause c pos) k)"
    by (simp_all add: c2_def nc1 nt1 iv1)
  have iv2: "invclause c2 = invclause c" using s12 by (simp add: same_formula_def iv1)
  have co2: "\<forall>u \<le> nvars c1. cost c2 ! u =
      (\<Sum>k < nclauses c1. if k \<in> set (invclause c1 pos) then contrib c1 k u else contrib c k u)"
    unfolding c2_def
    using same_formula_refl t1 fo1 _ st1 _ co0 hs1
    by (rule fold_W5_lost_cost) (simp_all add: iv1 dpos nv1 chv)
  \<comment> \<open>the clauses that gain a true literal\<close>
  let ?h = "\<lambda>k u. if k \<in> set (invclause c1 pos) then contrib c1 k u else contrib c k u"
  have notboth: "i \<notin> set (invclause c pos)" if "i \<in> set (invclause c (- pos))" for i
    using inneg [OF that] inpos [of i] by auto
  have st2: "\<forall>i \<in> set (invclause c2 (- pos)). i < nclauses c1 \<and>
      numtrue c2 ! i + 1 = int (count_true c1 i) \<and> count_list (clause_lits c1 i) (- pos) = 1"
  proof
    fix i assume i: "i \<in> set (invclause c2 (- pos))"
    then have a: "i < n" "count_list (clause_lits c i) (- pos) = 1"
      "int (count_true c i) + 1 = int (count_true c1 i)"
      using inneg [of i] by (simp_all add: iv2)
    have "count_list (invclause c pos) i = 0" using notboth i by (simp add: iv2 count_list_0_iff)
    with n2 a(1) no have "numtrue c2 ! i = int (count_true c i)"
      by (simp add: numtrue_ok_def n_def)
    with a show "i < nclauses c1 \<and> numtrue c2 ! i + 1 = int (count_true c1 i) \<and>
        count_list (clause_lits c1 i) (- pos) = 1"
      by (simp add: nc1 lits1)
  qed
  have hs2: "\<forall>i \<in> set (invclause c2 (- pos)). \<forall>u. ?h i u =
        (if count_true c1 i = 2 \<and>
            var (last (filter (\<lambda>l. l \<noteq> - pos \<and> is_true c1 l) (clause_lits c1 i))) = u
         then 1 else 0)"
  proof (intro ballI allI)
    fix i u assume i: "i \<in> set (invclause c2 (- pos))"
    then have a: "i < n" "count_list (clause_lits c i) pos = 0"
      "int (count_true c i) + 1 = int (count_true c1 i)"
      using inneg [of i] by (simp_all add: iv2)
    have h: "?h i u = contrib c i u" using notboth i by (simp add: iv2 iv1)
    have "pos \<notin> set (clause_lits c i)" using a(2) by (simp add: count_list_0_iff)
    then have "filter (\<lambda>l. l \<noteq> - pos \<and> is_true c1 l) (clause_lits c i) =
               filter (is_true c) (clause_lits c i)"
      using nz [OF a(1)] nfneg by (intro filter_cong) (auto simp: tf)
    then have fl: "filter (\<lambda>l. l \<noteq> - pos \<and> is_true c1 l) (clause_lits c1 i) =
               filter (is_true c) (clause_lits c i)"
      by (simp add: lits1)
    show "?h i u = (if count_true c1 i = 2 \<and>
            var (last (filter (\<lambda>l. l \<noteq> - pos \<and> is_true c1 l) (clause_lits c1 i))) = u
         then 1 else 0)"
    proof (cases "count_true c1 i = 2")
      case True
      with a(3) have single: "length (filter (is_true c) (clause_lits c i)) = 1"
        by (simp add: count_true_def)
      with filter_single [OF single, of var u] True show ?thesis
        unfolding h fl by (simp add: contrib_def count_true_def)
    next
      case False
      with a(3) have "count_true c i \<noteq> 1" by linarith
      with False show ?thesis unfolding h by (simp add: contrib_def)
    qed
  qed
  have co3: "\<forall>u \<le> nvars c1. cost c3 ! u =
      (\<Sum>k < nclauses c1. if k \<in> set (invclause c2 (- pos)) then contrib c1 k u else ?h k u)"
    unfolding c3_def
    using s12 t2 fo1 _ st2 _ _ _ co2 hs2
    by (rule fold_W5_gained_cost) (simp_all add: iv2 dneg nv1 chv ntneg vp)
  \<comment> \<open>every clause has its new contribution\<close>
  have same: "contrib c k u = contrib c1 k u"
    if "k < n" "k \<notin> set (invclause c pos)" "k \<notin> set (invclause c (- pos))" for k u
  proof -
    from that have "count_list (clause_lits c k) pos = 0" "count_list (clause_lits c k) (- pos) = 0"
      using ix [of pos k] ix [of "- pos" k] by (simp_all add: count_list_0_iff)
    then have notin: "pos \<notin> set (clause_lits c k)" "- pos \<notin> set (clause_lits c k)"
      by (simp_all add: count_list_0_iff)
    have eq: "is_true c1 l = is_true c l" if "l \<in> set (clause_lits c k)" for l
      using tf [of l] nz [OF \<open>k < n\<close> that] notin that by auto
    then have "filter (is_true c1) (clause_lits c k) = filter (is_true c) (clause_lits c k)"
      by (intro filter_cong) auto
    then have "count_true c1 k = count_true c k" by (simp add: count_true_def lits1)
    then show ?thesis using eq by (auto simp: contrib_def lits1)
  qed
  have fin: "\<forall>u \<le> nvars c1. cost c3 ! u = (\<Sum>k < n. contrib c1 k u)"
  proof (intro allI impI)
    fix u assume "u \<le> nvars c1"
    with co3 have "cost c3 ! u =
      (\<Sum>k < n. if k \<in> set (invclause c2 (- pos)) then contrib c1 k u else ?h k u)"
      by (simp add: nc1)
    also have "\<dots> = (\<Sum>k < n. contrib c1 k u)"
      using same by (intro sum.cong) (auto simp: iv1 iv2)
    finally show "cost c3 ! u = (\<Sum>k < n. contrib c1 k u)" .
  qed
  have s23: "same_formula c2 c3"
  proof -
    have b2: "\<forall>i \<in> set (invclause c2 (- pos)). i < nclauses c2"
      using st2 s12 by (auto simp: same_formula_def)
    from fold_W5_gained [OF t2 b2, of "var choice" "- pos"] show ?thesis by (simp add: c3_def)
  qed
  have s13: "same_formula c1 c3" using s12 s23 by (rule same_formula_trans)
  have "numtrue_ok c3" using W5_W_inv [OF inv K ch] by (simp add: W5 W_inv_def)
  moreover have "\<forall>v \<le> nvars c3. cost c3 ! v = (\<Sum>k < nclauses c3. contrib c3 k v)"
    using fin s13 by (simp add: same_formula_contrib [OF s13] same_formula_def nc1)
  ultimately show ?thesis by (simp add: W5 cost_ok_contrib)
qed

lemma distinct_vars_cong:
  assumes "clauses c' = clauses c" and "start c' = start c" and "nclauses c' = nclauses c"
  shows "distinct_vars c' = distinct_vars c"
proof -
  have "clause_lits c' k = clause_lits c k" for k
    using assms by (simp add: clause_lits_def clause_begin_def clause_end_def)
  then show ?thesis by (simp add: distinct_vars_def assms(3))
qed

lemma solve_iter_cost_ok:
  assumes "W_inv c" and "cost_ok c" and "distinct_vars c"
    and "solve_iter E n c g = Some (flips, c', g')"
  shows "cost_ok c'"
  using assms
proof (induction n arbitrary: c g flips)
  case 0
  then show ?case by simp
next
  case (Suc n)
  from Suc.prems(4) obtain choice c1 g1 fl where
    b: "solve_body E c g = Some (Inr (choice, c1, g1))" and
    r: "solve_iter E n c1 g1 = Some (fl, c', g')"
    by (auto split: if_splits option.splits sum.splits prod.splits)
  from solve_body_W_inv [OF Suc.prems(1) b]
  have a: "W_inv c1" "clauses c1 = clauses c" "start c1 = start c" "nclauses c1 = nclauses c"
    "c1 = W5 c choice"
    and "\<exists>q < length (f c). choice \<in> set (clause_lits c (f c ! q))"
    by blast+
  then obtain q where q: "q < length (f c)" "choice \<in> set (clause_lits c (f c ! q))" by blast
  from Suc.prems(1) q(1) have K: "f c ! q < nclauses c" by (simp add: W_inv_def fw_inv_def)
  have ck: "cost_ok c1"
    unfolding a(5) using Suc.prems(1,2,3) K q(2) by (rule W5_cost_ok)
  have dv: "distinct_vars c1"
    using Suc.prems(3) distinct_vars_cong [OF a(2,3,4)] by simp
  from Suc.IH [OF a(1) ck dv r] show ?case .
qed

text \<open>
  C2, as amended. For a formula in which no clause has two literals of the same variable,
  at every loop boundary and for every variable \<open>v\<close>, \<open>cost[v]\<close> is the number of clauses
  \<open>k\<close> with \<open>numtrue[k] = 1\<close> whose true literal has the variable \<open>v\<close>.
\<close>

theorem loop_boundary_cost:
  assumes "fresh c0" and "formula_ok c0" and "distinct_vars c0"
    and "solve_iter E n (fst (W1 E c0 g)) (snd (W1 E c0 g)) = Some (flips, c, g')"
  shows "\<forall>v \<le> nvars c. cost c ! v =
           int (length (filter (\<lambda>k. numtrue c ! k = 1 \<and>
                                   list_ex (\<lambda>l. is_true c l \<and> var l = v) (clause_lits c k))
                         [0 ..< nclauses c]))"
proof -
  let ?c1 = "fst (W1 E c0 g)"
  from W1_establishes [OF assms(1,2), of E g ?c1 "snd (W1 E c0 g)"]
  have a: "W_inv ?c1" "cost_ok ?c1" "clauses ?c1 = clauses c0" "start ?c1 = start c0"
    "nclauses ?c1 = nclauses c0"
    by simp_all
  have dv: "distinct_vars ?c1"
    using assms(3) distinct_vars_cong [OF a(3,4,5)] by simp
  from solve_iter_cost_ok [OF a(1,2) dv assms(4)] have "cost_ok c" .
  then show ?thesis by (simp add: cost_ok_def sole_true_def)
qed

text \<open>Two runs, each of one pass, with a generator that returns 2000000000 every time.\<close>

definition ex_draws :: rng where
  "ex_draws = (\<lambda>i. 2000000000)"

definition ex_formula :: Cnf where
  "ex_formula = (Cnf_new 1 1)\<lparr>clauses := [1], start := [0]\<rparr>"

definition ex_start :: Cnf where
  "ex_start = \<lparr>clauses = [1], start = [0], val = [False, False], cost = [0, 0],
       invclause = (\<lambda>l. [])(1 := [0]), f = [0], numtrue = [0], w = [Some 0],
       nvars = 1, nclauses = 1\<rparr>"

definition dup_start :: Cnf where
  "dup_start = \<lparr>clauses = [1, 1], start = [0], val = [False, False], cost = [0, 0],
       invclause = (\<lambda>l. [])(1 := [0, 0]), f = [0], numtrue = [0], w = [Some 0],
       nvars = 1, nclauses = 1\<rparr>"

definition ex_final :: Cnf where
  "ex_final = \<lparr>clauses = [1], start = [0], val = [False, True], cost = [0, 1],
                invclause = (\<lambda>l. [])(1 := [0]), f = [], numtrue = [1], w = [None],
                nvars = 1, nclauses = 1\<rparr>"

definition dup_formula :: Cnf where
  "dup_formula = (Cnf_new 1 1)\<lparr>clauses := [1, 1], start := [0]\<rparr>"

definition dup_final :: Cnf where
  "dup_final = \<lparr>clauses = [1, 1], start = [0], val = [False, True], cost = [0, 1],
                 invclause = (\<lambda>l. [])(1 := [0, 0]), f = [], numtrue = [2], w = [None],
                 nvars = 1, nclauses = 1\<rparr>"

lemma ex_fresh: "fresh ex_formula" "fresh dup_formula"
  by (simp_all add: fresh_def ex_formula_def dup_formula_def Cnf_new_def)

lemma ex_formula_ok: "formula_ok ex_formula" "formula_ok dup_formula"
  by (simp_all add: formula_ok_def ex_formula_def dup_formula_def Cnf_new_def clause_lits_def
      clause_begin_def clause_end_def var_def)

lemma ex_distinct_vars: "distinct_vars ex_formula"
  by (simp add: distinct_vars_def ex_formula_def Cnf_new_def clause_lits_def
      clause_begin_def clause_end_def var_def)

lemma ex_W1:
  "W1 env0 ex_formula ex_draws =
     (ex_start, ex_draws)"
  by (simp add: W1_def W1_val_def W1_clause_def W1_lit_def flip_eq env0_def float_values
      double_values Cnf_new_def clause_begin_def clause_end_def is_true_def var_def
      ex_formula_def ex_draws_def ex_start_def)

lemma ex_body:
  "solve_body env0 ex_start ex_draws = Some (Inr (1, ex_final, ex_draws))"
  apply (simp add: solve_body_def W3_def env0_def ex_draws_def ex_start_def dup_start_def)
  apply (subst W3_loop.simps)
  apply (simp add: rand_def)
  apply (simp add: W4_def flip_eq float_values double_values clause_lits_def clause_begin_def
      clause_end_def W4_choice_def var_def)
  apply (simp add: W5_def var_def W5_lost_def W5_gained_def register_satisfied_def ex_final_def)
  done

lemma ex_start_f: "f ex_start \<noteq> []" "f dup_start \<noteq> []"
  by (simp_all add: ex_start_def dup_start_def)

lemma ex_iter:
  "solve_iter env0 1 (fst (W1 env0 ex_formula ex_draws)) (snd (W1 env0 ex_formula ex_draws)) =
     Some ([1], ex_final, ex_draws)"
  by (simp add: ex_W1 ex_body ex_start_f)

lemma ex_solve: "solve env0 ex_formula ex_draws = Some (Inr (True, ex_final, ex_draws))"
  apply (simp add: solve_def ex_W1)
  apply (subst solve_loop.simps)
  apply (simp add: ex_body ex_start_f)
  apply (subst solve_loop.simps)
  apply (simp add: ex_final_def)
  done

lemma dup_W1:
  "W1 env0 dup_formula ex_draws =
     (dup_start, ex_draws)"
  by (simp add: W1_def W1_val_def W1_clause_def W1_lit_def flip_eq env0_def float_values
      double_values Cnf_new_def clause_begin_def clause_end_def is_true_def var_def
      dup_formula_def ex_draws_def dup_start_def)

lemma dup_body:
  "solve_body env0 dup_start ex_draws = Some (Inr (1, dup_final, ex_draws))"
  apply (simp add: solve_body_def W3_def env0_def ex_draws_def ex_start_def dup_start_def)
  apply (subst W3_loop.simps)
  apply (simp add: rand_def)
  apply (simp add: W4_def flip_eq float_values double_values clause_lits_def clause_begin_def
      clause_end_def W4_choice_def var_def)
  apply (simp add: W5_def var_def W5_lost_def W5_gained_def register_satisfied_def dup_final_def
      clause_lits_def clause_begin_def clause_end_def is_true_def)
  done

lemma dup_iter:
  "solve_iter env0 1 (fst (W1 env0 dup_formula ex_draws)) (snd (W1 env0 dup_formula ex_draws)) =
     Some ([1], dup_final, ex_draws)"
  by (simp add: dup_W1 dup_body ex_start_f)

theorem loop_boundary_invariants_witness:
  "fresh ex_formula \<and> formula_ok ex_formula \<and>
   solve_iter env0 1 (fst (W1 env0 ex_formula ex_draws)) (snd (W1 env0 ex_formula ex_draws)) =
     Some ([1], ex_final, ex_draws) \<and>
   numtrue ex_final ! 0 = 1 \<and> length (filter (is_true ex_final) (clause_lits ex_final 0)) = 1 \<and>
   w ex_final ! 0 = None \<and> f ex_final = [] \<and>
   card {k. k < nclauses ex_final \<and> numtrue ex_final ! k = 0} = 0"
proof -
  note t = loop_boundary_invariants [OF ex_fresh(1) ex_formula_ok(1) ex_iter]
  have n: "nclauses ex_final = 1" "numtrue ex_final ! 0 = 1" "w ex_final ! 0 = None" "f ex_final = []"
    by (simp_all add: ex_final_def)
  from t n(1) have "numtrue ex_final ! 0 = int (length (filter (is_true ex_final) (clause_lits ex_final 0)))"
    by simp
  then have a: "length (filter (is_true ex_final) (clause_lits ex_final 0)) = 1" using n by simp
  from t have "length (f ex_final) = card {k. k < nclauses ex_final \<and> numtrue ex_final ! k = 0}"
    by blast
  then have b: "card {k. k < nclauses ex_final \<and> numtrue ex_final ! k = 0} = 0" using n by simp
  from ex_fresh(1) ex_formula_ok(1) ex_iter n a b show ?thesis by simp
qed

theorem solve_returns_model_witness:
  "fresh ex_formula \<and> formula_ok ex_formula \<and>
   solve env0 ex_formula ex_draws = Some (Inr (True, ex_final, ex_draws)) \<and>
   f ex_final = [] \<and> is_satisfied ex_final 0 \<and> val ex_final = [False, True]"
proof -
  note t = solve_returns_model [OF ex_fresh(1) ex_formula_ok(1) ex_solve]
  have "nclauses ex_final = 1" "val ex_final = [False, True]" by (simp_all add: ex_final_def)
  with t ex_fresh(1) ex_formula_ok(1) ex_solve show ?thesis by simp
qed

theorem loop_boundary_cost_witness:
  "fresh ex_formula \<and> formula_ok ex_formula \<and> distinct_vars ex_formula \<and>
   solve_iter env0 1 (fst (W1 env0 ex_formula ex_draws)) (snd (W1 env0 ex_formula ex_draws)) =
     Some ([1], ex_final, ex_draws) \<and>
   cost ex_final ! 1 = 1 \<and>
   length (filter (\<lambda>k. numtrue ex_final ! k = 1 \<and>
                        list_ex (\<lambda>l. is_true ex_final l \<and> var l = 1) (clause_lits ex_final k))
            [0 ..< nclauses ex_final]) = 1"
proof -
  note t = loop_boundary_cost [OF ex_fresh(1) ex_formula_ok(1) ex_distinct_vars ex_iter]
  have n: "nvars ex_final = 1" "cost ex_final ! 1 = 1" by (simp_all add: ex_final_def)
  from t n(1) have "cost ex_final ! 1 = int (length (filter (\<lambda>k. numtrue ex_final ! k = 1 \<and>
                        list_ex (\<lambda>l. is_true ex_final l \<and> var l = 1) (clause_lits ex_final k))
            [0 ..< nclauses ex_final]))"
    by simp
  then have "length (filter (\<lambda>k. numtrue ex_final ! k = 1 \<and>
                        list_ex (\<lambda>l. is_true ex_final l \<and> var l = 1) (clause_lits ex_final k))
            [0 ..< nclauses ex_final]) = 1"
    using n by simp
  with ex_fresh(1) ex_formula_ok(1) ex_distinct_vars ex_iter n show ?thesis by simp
qed

text \<open>
  C2 as stated fails when a literal is repeated: on the clause \<open>1 \<or> 1\<close> with variable 1
  false at first, the pass that flips it ends with \<open>numtrue[0] = 2\<close> and \<open>cost[1] = 1\<close>,
  while no clause has \<open>numtrue = 1\<close>.
\<close>

theorem duplicate_literal_cost_counterexample:
  "fresh dup_formula \<and> formula_ok dup_formula \<and>
   solve_iter env0 1 (fst (W1 env0 dup_formula ex_draws)) (snd (W1 env0 dup_formula ex_draws)) =
     Some ([1], dup_final, ex_draws) \<and>
   clause_lits dup_final 0 = [1, 1] \<and> numtrue dup_final ! 0 = 2 \<and> cost dup_final ! 1 = 1 \<and>
   length (filter (\<lambda>k. numtrue dup_final ! k = 1 \<and>
                        list_ex (\<lambda>l. is_true dup_final l \<and> var l = 1) (clause_lits dup_final k))
            [0 ..< nclauses dup_final]) = 0"
  using ex_fresh(2) ex_formula_ok(2) dup_iter
  by (simp add: dup_final_def clause_lits_def clause_begin_def clause_end_def)

section \<open>W4: the choice of a literal\<close>



declare W4_scan.simps(2) [simp del]


text \<open>The least cost seen so far, as \<open>min_cost\<close> holds it.\<close>

definition W4_seen :: "int \<Rightarrow> int list \<Rightarrow> lit_t list \<Rightarrow> int" where
  "W4_seen hi cst pre = Min (insert hi ((\<lambda>l. cst ! var l) ` set pre))"

lemma W4_seen_Nil [simp]: "W4_seen hi cst [] = hi"
  by (simp add: W4_seen_def)



lemma W4_seen_top: "W4_seen hi cst pre \<le> hi"
  by (simp add: W4_seen_def)









subsection \<open>The coins of the scan\<close>





subsection \<open>Sequences of draws\<close>


definition draws :: "env \<Rightarrow> nat \<Rightarrow> nat list set" where
  "draws E m = {ds. set ds \<subseteq> {..RAND_MAX E} \<and> length ds = m}"







lemma card_draws: "card (draws E m) = (RAND_MAX E + 1) ^ m"
  unfolding draws_def by (simp add: card_lists_length_eq)









subsection \<open>The distribution of the choice\<close>


















subsection \<open>The coins on a usual platform\<close>



















end
